theory Spec2Isabelle
  imports Complex_Main
begin

section \<open>Geodesy: orthodromic distance between two geo-points\<close>

text \<open>
  The class \<^verbatim>\<open>Geodesy\<close> (Geodesy.h, Geodesy.cpp) has three static methods,
  \<^verbatim>\<open>Haversine\<close>, \<^verbatim>\<open>SLC\<close> and \<^verbatim>\<open>Vincenty\<close>, each from four
  \<^verbatim>\<open>double\<close> arguments and a unit to a \<^verbatim>\<open>double\<close>.

  A \<^verbatim>\<open>double\<close> is modelled by the type \<open>dbl\<close>: a number (a real) or one of the
  three special values of IEEE 754, which are kept as they are, since they decide what the
  methods return on inputs that are not numbers.

  The arithmetic is modelled twice.

  \<^item> In the exact model (the operations \<open>dadd\<close>, \<open>dmul\<close>, \<open>dsin\<close>, ... and the methods
    \<open>Haversine\<close>, \<open>SLC\<close>, \<open>Vincenty\<close>) an operation on numbers is the exact real
    operation: no rounding, no overflow. It gives the formulas that the methods compute and
    the structure of the loop.

  \<^item> In the rounded model (the operations \<open>radd\<close>, \<open>rmul\<close>, \<open>rsin\<close>, ... and the
    methods \<open>Haversine_r\<close>, \<open>SLC_r\<close>, \<open>Vincenty_r\<close>) every operation is the exact one
    followed by rounding to the nearest binary64 value, as in the compiled code. The
    statements about double arithmetic are made in this model.

  Both models follow IEEE 754 and the C library on the special values, and both have one
  zero. A property of exact arithmetic need not hold after rounding: a comparison with zero
  (\<^verbatim>\<open>sin\<sigma> == 0.0\<close>, \<^verbatim>\<open>cos2\<alpha> != 0.0\<close>) or the argument of an arc cosine near 1
  can fall on the other side. In exact arithmetic the sine of \<open>\<sigma>\<close> is zero for two
  coincident points and also for two antipodal ones (\<open>\<lambda> = \<pi>\<close> and opposite latitudes);
  no \<^verbatim>\<open>double\<close> is an exact multiple of \<open>\<pi>\<close>.
\<close>

subsection \<open>The type double\<close>

datatype dbl = Fin real | PInf | NInf | NaN

fun dneg :: "dbl \<Rightarrow> dbl" where
  "dneg (Fin x) = Fin (- x)"
| "dneg PInf = NInf"
| "dneg NInf = PInf"
| "dneg NaN = NaN"

fun dadd :: "dbl \<Rightarrow> dbl \<Rightarrow> dbl" where
  "dadd (Fin x) (Fin y) = Fin (x + y)"
| "dadd NaN _ = NaN"
| "dadd _ NaN = NaN"
| "dadd PInf NInf = NaN"
| "dadd NInf PInf = NaN"
| "dadd PInf _ = PInf"
| "dadd NInf _ = NInf"
| "dadd _ PInf = PInf"
| "dadd _ NInf = NInf"

definition dsub :: "dbl \<Rightarrow> dbl \<Rightarrow> dbl" where
  "dsub x y = dadd x (dneg y)"

text \<open>The infinity with the sign of a real number that is not zero.\<close>

definition inf_of_sign :: "real \<Rightarrow> dbl" where
  "inf_of_sign s = (if 0 < s then PInf else NInf)"

fun dmul :: "dbl \<Rightarrow> dbl \<Rightarrow> dbl" where
  "dmul (Fin x) (Fin y) = Fin (x * y)"
| "dmul NaN _ = NaN"
| "dmul _ NaN = NaN"
| "dmul (Fin x) PInf = (if x = 0 then NaN else inf_of_sign x)"
| "dmul (Fin x) NInf = (if x = 0 then NaN else inf_of_sign (- x))"
| "dmul PInf (Fin y) = (if y = 0 then NaN else inf_of_sign y)"
| "dmul NInf (Fin y) = (if y = 0 then NaN else inf_of_sign (- y))"
| "dmul PInf PInf = PInf"
| "dmul PInf NInf = NInf"
| "dmul NInf PInf = NInf"
| "dmul NInf NInf = PInf"

text \<open>
  Division: a finite value that is not zero divided by zero is an infinity, zero by zero
  is not a number. The model has one zero, so the sign of the infinity is the sign of the
  dividend.
\<close>

fun ddiv :: "dbl \<Rightarrow> dbl \<Rightarrow> dbl" where
  "ddiv (Fin x) (Fin y) =
     (if y = 0 then (if x = 0 then NaN else inf_of_sign x) else Fin (x / y))"
| "ddiv NaN _ = NaN"
| "ddiv _ NaN = NaN"
| "ddiv (Fin x) PInf = Fin 0"
| "ddiv (Fin x) NInf = Fin 0"
| "ddiv PInf (Fin y) = (if 0 \<le> y then PInf else NInf)"
| "ddiv NInf (Fin y) = (if 0 \<le> y then NInf else PInf)"
| "ddiv PInf PInf = NaN"
| "ddiv PInf NInf = NaN"
| "ddiv NInf PInf = NaN"
| "ddiv NInf NInf = NaN"

text \<open>
  The comparisons of the source: \<^verbatim>\<open>==\<close>, \<^verbatim>\<open>!=\<close> and \<^verbatim>\<open><\<close>. Every
  comparison with a NaN is false, but \<^verbatim>\<open>!=\<close>, which is true.
\<close>

fun deq :: "dbl \<Rightarrow> dbl \<Rightarrow> bool" where
  "deq NaN _ = False"
| "deq _ NaN = False"
| "deq x y = (x = y)"

definition dne :: "dbl \<Rightarrow> dbl \<Rightarrow> bool" where
  "dne x y = (\<not> deq x y)"

fun dlt :: "dbl \<Rightarrow> dbl \<Rightarrow> bool" where
  "dlt (Fin x) (Fin y) = (x < y)"
| "dlt NaN _ = False"
| "dlt _ NaN = False"
| "dlt NInf NInf = False"
| "dlt NInf _ = True"
| "dlt PInf _ = False"
| "dlt (Fin x) PInf = True"
| "dlt (Fin x) NInf = False"

subsection \<open>The functions of cmath\<close>

text \<open>
  None of them throws a C++ exception: outside its domain a function of \<^verbatim>\<open>cmath\<close>
  returns a NaN (and raises a floating-point flag, which is not an exception).
\<close>

fun dfabs :: "dbl \<Rightarrow> dbl" where
  "dfabs (Fin x) = Fin \<bar>x\<bar>"
| "dfabs PInf = PInf"
| "dfabs NInf = PInf"
| "dfabs NaN = NaN"

fun dsqrt :: "dbl \<Rightarrow> dbl" where
  "dsqrt (Fin x) = (if 0 \<le> x then Fin (sqrt x) else NaN)"
| "dsqrt PInf = PInf"
| "dsqrt NInf = NaN"
| "dsqrt NaN = NaN"

fun dsin :: "dbl \<Rightarrow> dbl" where
  "dsin (Fin x) = Fin (sin x)"
| "dsin _ = NaN"

fun dcos :: "dbl \<Rightarrow> dbl" where
  "dcos (Fin x) = Fin (cos x)"
| "dcos _ = NaN"

text \<open>
  The exact tangent has a pole where the cosine is zero. There the C library reports a
  pole error and returns an infinity; the model gives it the sign of the sine, which is
  the sign of the tangent on the side of the pole nearer to zero (at 90 degrees, plus
  infinity). No \<^verbatim>\<open>double\<close> is an exact odd multiple of a right angle, so this case
  only exists in exact arithmetic.
\<close>

fun dtan :: "dbl \<Rightarrow> dbl" where
  "dtan (Fin x) = (if cos x = 0 then inf_of_sign (sin x) else Fin (tan x))"
| "dtan _ = NaN"

fun datan :: "dbl \<Rightarrow> dbl" where
  "datan (Fin x) = Fin (arctan x)"
| "datan PInf = Fin (pi / 2)"
| "datan NInf = Fin (- (pi / 2))"
| "datan NaN = NaN"

fun dasin :: "dbl \<Rightarrow> dbl" where
  "dasin (Fin x) = (if - 1 \<le> x \<and> x \<le> 1 then Fin (arcsin x) else NaN)"
| "dasin _ = NaN"

fun dacos :: "dbl \<Rightarrow> dbl" where
  "dacos (Fin x) = (if - 1 \<le> x \<and> x \<le> 1 then Fin (arccos x) else NaN)"
| "dacos _ = NaN"

text \<open>The angle of the point \<open>(x, y)\<close>, in \<open>(-\<pi>, \<pi>]\<close>; zero at the origin.\<close>

definition atan2 :: "real \<Rightarrow> real \<Rightarrow> real" where
  "atan2 y x =
     (if 0 < x then arctan (y / x)
      else if x < 0 then (if 0 \<le> y then arctan (y / x) + pi else arctan (y / x) - pi)
      else if 0 < y then pi / 2
      else if y < 0 then - (pi / 2)
      else 0)"

fun datan2 :: "dbl \<Rightarrow> dbl \<Rightarrow> dbl" where
  "datan2 (Fin y) (Fin x) = Fin (atan2 y x)"
| "datan2 NaN _ = NaN"
| "datan2 _ NaN = NaN"
| "datan2 (Fin y) PInf = Fin 0"
| "datan2 (Fin y) NInf = (if 0 \<le> y then Fin pi else Fin (- pi))"
| "datan2 PInf (Fin x) = Fin (pi / 2)"
| "datan2 NInf (Fin x) = Fin (- (pi / 2))"
| "datan2 PInf PInf = Fin (pi / 4)"
| "datan2 NInf PInf = Fin (- (pi / 4))"
| "datan2 PInf NInf = Fin (3 * pi / 4)"
| "datan2 NInf NInf = Fin (- (3 * pi / 4))"

subsection \<open>Exceptions\<close>

text \<open>
  Each method is one \<^verbatim>\<open>try\<close> block with the handler
  \<^verbatim>\<open>catch (...) { return -1; }\<close>. The block is a computation that ends in a
  \<^verbatim>\<open>throw\<close> (\<open>Inl\<close>) or in a \<^verbatim>\<open>return\<close> (\<open>Inr\<close>).
\<close>

datatype exn = runtime_error string

fun catch_all :: "exn + dbl \<Rightarrow> dbl" where
  "catch_all (Inl e) = Fin (- 1)"
| "catch_all (Inr v) = v"

subsection \<open>The constants of the class\<close>

datatype Units = SI | US

definition meanR :: dbl where
  "meanR = Fin 6371.009"

definition mi2km :: dbl where
  "mi2km = Fin 1.609344"

definition pi_const :: dbl where
  "pi_const = Fin pi"

definition toRad :: dbl where
  "toRad = ddiv pi_const (Fin 180.0)"

text \<open>The factor \<^verbatim>\<open>(unit == Units::SI ? 1.0 : 1.0 / mi2km)\<close> of the three methods.\<close>

definition unit_factor :: "Units \<Rightarrow> dbl" where
  "unit_factor unit = (if unit = SI then Fin 1.0 else ddiv (Fin 1.0) mi2km)"

subsection \<open>Haversine\<close>

definition Haversine :: "dbl \<Rightarrow> dbl \<Rightarrow> dbl \<Rightarrow> dbl \<Rightarrow> Units \<Rightarrow> dbl" where
  "Haversine lat1 lon1 lat2 lon2 unit = catch_all
     (let phi1 = dmul lat1 toRad;
          phi2 = dmul lat2 toRad;
          a0 = dsin (ddiv (dsub phi2 phi1) (Fin 2));
          a = dmul a0 a0;
          b0 = dsin (dmul (ddiv (dsub lon2 lon1) (Fin 2)) toRad);
          b = dmul b0 (dmul (dmul b0 (dcos phi1)) (dcos phi2));
          ca = dmul (Fin 2) (dasin (dsqrt (dadd a b)))
      in Inr (dmul (dmul ca meanR) (unit_factor unit)))"

subsection \<open>Spherical law of cosines\<close>

definition SLC :: "dbl \<Rightarrow> dbl \<Rightarrow> dbl \<Rightarrow> dbl \<Rightarrow> Units \<Rightarrow> dbl" where
  "SLC lat1 lon1 lat2 lon2 unit = catch_all
     (let phi1 = dmul lat1 toRad;
          phi2 = dmul lat2 toRad;
          Deltalam = dmul (dsub lon1 lon2) toRad;
          ca = dacos (dadd (dmul (dsin phi1) (dsin phi2))
                           (dmul (dmul (dcos phi1) (dcos phi2)) (dcos Deltalam)))
      in Inr (dmul (dmul ca meanR) (unit_factor unit)))"

subsection \<open>Vincenty inverse formula\<close>

text \<open>The constants \<^verbatim>\<open>a\<close>, \<^verbatim>\<open>f\<close>, \<^verbatim>\<open>b\<close> and \<^verbatim>\<open>\<epsilon>\<close> of the method.\<close>

definition Vincenty_a :: dbl where
  "Vincenty_a = Fin 6378137.0"

definition Vincenty_f :: dbl where
  "Vincenty_f = ddiv (Fin 1.0) (Fin 298.257223563)"

definition Vincenty_b :: dbl where
  "Vincenty_b = dmul Vincenty_a (dsub (Fin 1.0) Vincenty_f)"

definition Vincenty_eps :: dbl where
  "Vincenty_eps = Fin 0.000000000001"

text \<open>The variables set before the loop and read in it.\<close>

record reduced =
  sinU1 :: dbl
  cosU1 :: dbl
  sinU2 :: dbl
  cosU2 :: dbl
  Deltalam :: dbl

text \<open>
  The variables declared before the loop and set in it (\<open>cap_A\<close> and \<open>cap_B\<close> are
  \<^verbatim>\<open>A\<close> and \<^verbatim>\<open>B\<close>).
\<close>

record locals =
  sinsigma :: dbl
  cossigma :: dbl
  sigma :: dbl
  sinalpha :: dbl
  cos2alpha :: dbl
  cos2sigmaM :: dbl
  u2 :: dbl
  cap_A :: dbl
  cap_B :: dbl
  Deltasigma :: dbl
  lam :: dbl
  lamPrev :: dbl

text \<open>The first statements of the loop body: the sine of \<open>\<sigma>\<close>, from \<open>\<lambda>\<close>.\<close>

definition Vincenty_sinsigma :: "reduced \<Rightarrow> dbl \<Rightarrow> dbl" where
  "Vincenty_sinsigma r lam0 =
     (let sinlam = dsin lam0; coslam = dcos lam0;
          term1 = dmul (cosU2 r) sinlam;
          term2 = dsub (dmul (cosU1 r) (sinU2 r)) (dmul (dmul (sinU1 r) (cosU2 r)) coslam)
      in dsqrt (dadd (dmul term1 term1) (dmul term2 term2)))"

text \<open>
  One run of the loop body, from the value of \<open>\<lambda>\<close>, up to and without the test of
  convergence: it returns from the method (\<^verbatim>\<open>return 0.0\<close>) or goes on with the
  variables set.
\<close>

datatype body_exit = Return dbl | Continue locals

definition Vincenty_body :: "reduced \<Rightarrow> dbl \<Rightarrow> body_exit" where
  "Vincenty_body r lam0 =
     (let sinlam = dsin lam0; coslam = dcos lam0;
          sinsig = Vincenty_sinsigma r lam0
      in if deq sinsig (Fin 0.0) then Return (Fin 0.0)
         else
          let cossig = dadd (dmul (sinU1 r) (sinU2 r))
                            (dmul (dmul (cosU1 r) (cosU2 r)) coslam);
              sig = datan2 sinsig cossig;
              sinalp = ddiv (dmul (dmul (cosU1 r) (cosU2 r)) sinlam) sinsig;
              sin2alp = dmul sinalp sinalp;
              cos2alp = dsub (Fin 1.0) sin2alp;
              cos2sigM =
                (if dne cos2alp (Fin 0.0)
                 then dsub cossig (ddiv (dmul (dmul (Fin 2.0) (sinU1 r)) (sinU2 r)) cos2alp)
                 else Fin 0.0);
              usq = ddiv (dmul cos2alp (dsub (dmul Vincenty_a Vincenty_a)
                                              (dmul Vincenty_b Vincenty_b)))
                         (dmul Vincenty_b Vincenty_b);
              A = dadd (Fin 1.0) (dmul (ddiv usq (Fin 16384.0))
                    (dadd (Fin 4096.0) (dmul usq (dadd (Fin (- 768.0))
                       (dmul usq (dsub (Fin 320.0) (dmul (Fin 175.0) usq)))))));
              B = dmul (ddiv usq (Fin 1024.0))
                    (dadd (Fin 256.0) (dmul usq (dadd (Fin (- 128.0))
                       (dmul usq (dsub (Fin 74.0) (dmul (Fin 47.0) usq))))));
              cos2alpM2 = dmul cos2sigM cos2sigM;
              Dsig = dmul (dmul B sinsig)
                      (dadd cos2sigM (dmul (ddiv B (Fin 4.0))
                         (dsub (dmul cossig (dadd (Fin (- 1.0)) (dmul (Fin 2.0) cos2alpM2)))
                               (dmul (dmul (dmul (ddiv B (Fin 6.0)) cos2sigM)
                                           (dadd (Fin (- 3.0))
                                                 (dmul (dmul (Fin 4.0) sinsig) sinsig)))
                                     (dadd (Fin (- 3.0)) (dmul (Fin 4.0) cos2alpM2))))));
              C = dmul (dmul (ddiv Vincenty_f (Fin 16.0)) cos2alp)
                       (dadd (Fin 4.0)
                             (dmul Vincenty_f (dsub (Fin 4.0) (dmul (Fin 3.0) cos2alp))));
              lam1 = dadd (Deltalam r)
                       (dmul (dmul (dmul (dsub (Fin 1.0) C) Vincenty_f) sinalp)
                             (dadd sig (dmul (dmul C sinsig)
                                (dadd cos2sigM (dmul (dmul C cossig)
                                   (dadd (Fin (- 1.0)) (dmul (Fin 2.0) cos2alpM2)))))))
          in Continue \<lparr>sinsigma = sinsig, cossigma = cossig, sigma = sig,
                        sinalpha = sinalp, cos2alpha = cos2alp, cos2sigmaM = cos2sigM,
                        u2 = usq, cap_A = A, cap_B = B, Deltasigma = Dsig,
                        lam = lam1, lamPrev = lam0\<rparr>)"

text \<open>The test \<^verbatim>\<open>std::fabs(\<lambda> - \<lambda>Prev) < \<epsilon>\<close> that ends the loop by \<^verbatim>\<open>break\<close>.\<close>

definition converged :: "locals \<Rightarrow> bool" where
  "converged st = dlt (dfabs (dsub (lam st) (lamPrev st))) Vincenty_eps"

text \<open>
  The \<^verbatim>\<open>do ... while (--iterLimit > 0)\<close> loop, from the values of \<open>\<lambda>\<close> and of
  \<^verbatim>\<open>iterLimit\<close> at the \<^verbatim>\<open>do\<close>. It ends by the \<^verbatim>\<open>return\<close> of the body,
  or it is left, by \<^verbatim>\<open>break\<close> or by its condition, with the variables and
  \<^verbatim>\<open>iterLimit\<close> as they are then. The last argument is not a variable of the
  program: it counts the runs of the body, and the count comes back with the result.
  \<^verbatim>\<open>iterLimit\<close> is an \<^verbatim>\<open>int\<close> that starts at 100 and only decreases to 0, so it
  never wraps.
\<close>

datatype loop_exit = Returned dbl | Left locals int

function Vincenty_loop :: "reduced \<Rightarrow> dbl \<Rightarrow> int \<Rightarrow> nat \<Rightarrow> loop_exit \<times> nat" where
  "Vincenty_loop r lam0 iterLimit n =
     (case Vincenty_body r lam0 of
        Return v \<Rightarrow> (Returned v, Suc n)
      | Continue st \<Rightarrow>
          if converged st then (Left st iterLimit, Suc n)
          else if iterLimit - 1 > 0 then Vincenty_loop r (lam st) (iterLimit - 1) (Suc n)
          else (Left st (iterLimit - 1), Suc n))"
  by pat_completeness auto
termination
  by (relation "measure (\<lambda>(r, lam0, iterLimit, n). nat iterLimit)") auto

text \<open>The variables before the loop, from the arguments.\<close>

definition Vincenty_reduced :: "dbl \<Rightarrow> dbl \<Rightarrow> dbl \<Rightarrow> dbl \<Rightarrow> reduced" where
  "Vincenty_reduced lat1 lon1 lat2 lon2 =
     (let phi1 = dmul lat1 toRad; phi2 = dmul lat2 toRad;
          Dlam = dmul (dsub lon2 lon1) toRad;
          U1 = datan (dmul (dsub (Fin 1) Vincenty_f) (dtan phi1));
          U2 = datan (dmul (dsub (Fin 1) Vincenty_f) (dtan phi2))
      in \<lparr>sinU1 = dsin U1, cosU1 = dcos U1, sinU2 = dsin U2, cosU2 = dcos U2,
          Deltalam = Dlam\<rparr>)"

text \<open>The statements after the loop, from what the loop left.\<close>

definition Vincenty_finish :: "loop_exit \<Rightarrow> Units \<Rightarrow> exn + dbl" where
  "Vincenty_finish ex unit =
     (case ex of
        Returned v \<Rightarrow> Inr v
      | Left st iterLimit \<Rightarrow>
          if iterLimit = 0 then Inl (runtime_error ''Vincenty: No convergence'')
          else
            let s = ddiv (dmul (dmul Vincenty_b (cap_A st))
                               (dsub (sigma st) (Deltasigma st))) (Fin 1000.0)
            in Inr (dmul s (unit_factor unit)))"

definition Vincenty :: "dbl \<Rightarrow> dbl \<Rightarrow> dbl \<Rightarrow> dbl \<Rightarrow> Units \<Rightarrow> dbl" where
  "Vincenty lat1 lon1 lat2 lon2 unit = catch_all
     (let r = Vincenty_reduced lat1 lon1 lat2 lon2
      in Vincenty_finish (fst (Vincenty_loop r (Deltalam r) 100 0)) unit)"

text \<open>The number of runs of the loop body in a call of the method.\<close>

definition Vincenty_iterations :: "dbl \<Rightarrow> dbl \<Rightarrow> dbl \<Rightarrow> dbl \<Rightarrow> nat" where
  "Vincenty_iterations lat1 lon1 lat2 lon2 =
     (let r = Vincenty_reduced lat1 lon1 lat2 lon2
      in snd (Vincenty_loop r (Deltalam r) 100 0))"

text \<open>
  \<open>Vincenty_head r l i\<close>: in a call with the variables \<open>r\<close>, the loop comes to its
  \<^verbatim>\<open>do\<close> with \<open>\<lambda> = l\<close> and \<^verbatim>\<open>iterLimit\<close> \<open>= i\<close>. It starts there with
  \<open>\<Delta>\<lambda>\<close> and 100, and comes back after a run of the body that neither returns nor
  meets the test of convergence, while \<^verbatim>\<open>--iterLimit > 0\<close>.
\<close>

inductive Vincenty_head :: "reduced \<Rightarrow> dbl \<Rightarrow> int \<Rightarrow> bool" for r :: reduced where
  first: "Vincenty_head r (Deltalam r) 100"
| again: "Vincenty_head r l i \<Longrightarrow> Vincenty_body r l = Continue st \<Longrightarrow> \<not> converged st
          \<Longrightarrow> i - 1 > 0 \<Longrightarrow> Vincenty_head r (lam st) (i - 1)"

subsection \<open>The Vincenty method on numbers\<close>

text \<open>
  When the arguments of \<open>Vincenty\<close> are numbers, every variable of the method is a
  number. The functions of this part are the statements of the method in real
  arithmetic; they are not read from the specification but from \<open>Vincenty_reduced\<close>
  and \<open>Vincenty_body\<close>, which are proved below to compute them (\<open>reduced_Fin\<close>,
  \<open>body_Fin\<close>). They serve to state and prove the properties of the method.
\<close>

definition wgs_a :: real where
  "wgs_a = 6378137"

definition wgs_f :: real where
  "wgs_f = 1 / 298.257223563"

definition wgs_b :: real where
  "wgs_b = wgs_a * (1 - wgs_f)"

text \<open>
  The reduced latitude \<^verbatim>\<open>atan((1 - f) * tan(\<phi>))\<close> of a latitude in degrees: at a pole
  of the tangent it is the arc tangent of the infinity that \<open>dtan\<close> returns.
\<close>

definition reduced_lat :: "real \<Rightarrow> real" where
  "reduced_lat lat =
     (let phi = lat * (pi / 180)
      in if cos phi = 0 then (if 0 < sin phi then pi / 2 else - (pi / 2))
         else arctan ((1 - wgs_f) * tan phi))"

text \<open>The variables before the loop, from two reduced latitudes and \<open>\<Delta>\<lambda>\<close>.\<close>

definition fin_reduced :: "real \<Rightarrow> real \<Rightarrow> real \<Rightarrow> reduced" where
  "fin_reduced p q dl =
     \<lparr>sinU1 = Fin (sin p), cosU1 = Fin (cos p), sinU2 = Fin (sin q), cosU2 = Fin (cos q),
      Deltalam = Fin dl\<rparr>"

text \<open>The statements of the loop body, one function for each.\<close>

definition fin_sinsigma :: "real \<Rightarrow> real \<Rightarrow> real \<Rightarrow> real" where
  "fin_sinsigma p q l =
     sqrt ((cos q * sin l) * (cos q * sin l)
           + (cos p * sin q - sin p * cos q * cos l)
             * (cos p * sin q - sin p * cos q * cos l))"

definition fin_cossigma :: "real \<Rightarrow> real \<Rightarrow> real \<Rightarrow> real" where
  "fin_cossigma p q l = sin p * sin q + cos p * cos q * cos l"

definition fin_u2 :: "real \<Rightarrow> real" where
  "fin_u2 c2a = c2a * (wgs_a * wgs_a - wgs_b * wgs_b) / (wgs_b * wgs_b)"

definition fin_A :: "real \<Rightarrow> real" where
  "fin_A usq = 1 + usq / 16384 * (4096 + usq * (- 768 + usq * (320 - 175 * usq)))"

definition fin_B :: "real \<Rightarrow> real" where
  "fin_B usq = usq / 1024 * (256 + usq * (- 128 + usq * (74 - 47 * usq)))"

definition fin_Deltasigma :: "real \<Rightarrow> real \<Rightarrow> real \<Rightarrow> real \<Rightarrow> real" where
  "fin_Deltasigma B ss cs c2sm =
     B * ss * (c2sm + B / 4 * (cs * (- 1 + 2 * (c2sm * c2sm))
                 - B / 6 * c2sm * (- 3 + 4 * ss * ss) * (- 3 + 4 * (c2sm * c2sm))))"

definition fin_C :: "real \<Rightarrow> real" where
  "fin_C c2a = wgs_f / 16 * c2a * (4 + wgs_f * (4 - 3 * c2a))"

definition fin_lam :: "real \<Rightarrow> real \<Rightarrow> real \<Rightarrow> real \<Rightarrow> real \<Rightarrow> real \<Rightarrow> real \<Rightarrow> real" where
  "fin_lam dl C sa sg ss cs c2sm =
     dl + (1 - C) * wgs_f * sa * (sg + C * ss * (c2sm + C * cs * (- 1 + 2 * (c2sm * c2sm))))"

text \<open>The variables after a run of the body that does not return.\<close>

definition fin_locals :: "real \<Rightarrow> real \<Rightarrow> real \<Rightarrow> real \<Rightarrow> locals" where
  "fin_locals p q dl l =
     (let ss = fin_sinsigma p q l; cs = fin_cossigma p q l;
          sg = atan2 ss cs;
          sa = cos p * cos q * sin l / ss;
          c2a = 1 - sa * sa;
          c2sm = (if c2a \<noteq> 0 then cs - 2 * sin p * sin q / c2a else 0);
          usq = fin_u2 c2a;
          B = fin_B usq
      in \<lparr>sinsigma = Fin ss, cossigma = Fin cs, sigma = Fin sg, sinalpha = Fin sa,
          cos2alpha = Fin c2a, cos2sigmaM = Fin c2sm, u2 = Fin usq, cap_A = Fin (fin_A usq),
          cap_B = Fin B, Deltasigma = Fin (fin_Deltasigma B ss cs c2sm),
          lam = Fin (fin_lam dl (fin_C c2a) sa sg ss cs c2sm), lamPrev = Fin l\<rparr>)"

subsection \<open>Rounding to binary64\<close>

text \<open>
  \<open>rhe m\<close> is the integer nearest to \<open>m\<close>, and the even one of the two when \<open>m\<close> is half
  way between two integers (round half to even).
\<close>

definition rhe :: "real \<Rightarrow> int" where
  "rhe m =
     (let f = \<lfloor>m\<rfloor>; d = m - of_int f
      in if d < 1 / 2 then f else if 1 / 2 < d then f + 1
         else if even f then f else f + 1)"

text \<open>
  \<open>round_double x\<close> is the binary64 value nearest to the real \<open>x\<close>. With \<open>e\<close> the
  binary exponent of \<open>x\<close>, and -1022 (the exponent of the subnormal numbers) when \<open>x\<close> is
  smaller, the binary64 values around \<open>x\<close> are the multiples of \<open>2 ^ (e - 52)\<close>; \<open>x\<close> is
  rounded to the nearest, to the even one in a tie. A result of magnitude \<open>2 ^ 1024\<close> or
  more is the infinity of that sign. The numbers that are doubles are those that
  \<open>round_double\<close> leaves as they are.
\<close>

definition round_double :: "real \<Rightarrow> dbl" where
  "round_double x =
     (if x = 0 then Fin 0
      else
        let e = max \<lfloor>log 2 \<bar>x\<bar>\<rfloor> (- 1022);
            u = 2 powr of_int (e - 52);
            y = of_int (rhe (x / u)) * u
        in if 2 powr 1024 \<le> \<bar>y\<bar> then inf_of_sign x else Fin y)"

text \<open>Rounding a value: the special values are left as they are.\<close>

fun round_to :: "dbl \<Rightarrow> dbl" where
  "round_to (Fin x) = round_double x"
| "round_to PInf = PInf"
| "round_to NInf = NInf"
| "round_to NaN = NaN"

text \<open>
  The operations of the compiled code: each is the exact operation followed by rounding.
  For \<^verbatim>\<open>+\<close>, \<^verbatim>\<open>-\<close>, \<^verbatim>\<open>*\<close>, \<^verbatim>\<open>/\<close> and \<^verbatim>\<open>sqrt\<close> this is IEEE 754
  in the default rounding mode. For the other functions of \<^verbatim>\<open>cmath\<close> it is a library
  that rounds correctly. Every operation is rounded on its own: no fused multiply-add and
  no wider format for intermediate results. The comparisons and \<^verbatim>\<open>fabs\<close> are exact
  in double arithmetic (\<open>deq\<close>, \<open>dne\<close>, \<open>dlt\<close>, \<open>dfabs\<close>).
\<close>

definition radd :: "dbl \<Rightarrow> dbl \<Rightarrow> dbl" where
  "radd x y = round_to (dadd x y)"

definition rsub :: "dbl \<Rightarrow> dbl \<Rightarrow> dbl" where
  "rsub x y = round_to (dsub x y)"

definition rmul :: "dbl \<Rightarrow> dbl \<Rightarrow> dbl" where
  "rmul x y = round_to (dmul x y)"

definition rdiv :: "dbl \<Rightarrow> dbl \<Rightarrow> dbl" where
  "rdiv x y = round_to (ddiv x y)"

definition rsqrt :: "dbl \<Rightarrow> dbl" where
  "rsqrt x = round_to (dsqrt x)"

definition rsin :: "dbl \<Rightarrow> dbl" where
  "rsin x = round_to (dsin x)"

definition rcos :: "dbl \<Rightarrow> dbl" where
  "rcos x = round_to (dcos x)"

definition rtan :: "dbl \<Rightarrow> dbl" where
  "rtan x = round_to (dtan x)"

definition ratan :: "dbl \<Rightarrow> dbl" where
  "ratan x = round_to (datan x)"

definition rasin :: "dbl \<Rightarrow> dbl" where
  "rasin x = round_to (dasin x)"

definition racos :: "dbl \<Rightarrow> dbl" where
  "racos x = round_to (dacos x)"

definition ratan2 :: "dbl \<Rightarrow> dbl \<Rightarrow> dbl" where
  "ratan2 y x = round_to (datan2 y x)"

subsection \<open>The three methods in double arithmetic\<close>

text \<open>
  The constants as doubles. A decimal literal is the double nearest to it, and
  \<^verbatim>\<open>std::numbers::pi\<close> is the double nearest to \<open>\<pi>\<close>. A literal with an integer value
  (\<^verbatim>\<open>2\<close>, \<^verbatim>\<open>180.0\<close>, \<^verbatim>\<open>6378137.0\<close>, \<^verbatim>\<open>16384.0\<close>, ...) is a double as it
  is written.
\<close>

definition meanR_r :: dbl where
  "meanR_r = round_double 6371.009"

definition mi2km_r :: dbl where
  "mi2km_r = round_double 1.609344"

definition pi_const_r :: dbl where
  "pi_const_r = round_double pi"

definition toRad_r :: dbl where
  "toRad_r = rdiv pi_const_r (Fin 180.0)"

definition unit_factor_r :: "Units \<Rightarrow> dbl" where
  "unit_factor_r unit = (if unit = SI then Fin 1.0 else rdiv (Fin 1.0) mi2km_r)"

text \<open>
  The methods, statement by statement as in the exact model and with the operators
  associated as C++ does (\<^verbatim>\<open>a * b * c\<close> is \<^verbatim>\<open>(a * b) * c\<close>), on the rounded
  operations.
\<close>

definition Haversine_r :: "dbl \<Rightarrow> dbl \<Rightarrow> dbl \<Rightarrow> dbl \<Rightarrow> Units \<Rightarrow> dbl" where
  "Haversine_r lat1 lon1 lat2 lon2 unit = catch_all
     (let phi1 = rmul lat1 toRad_r;
          phi2 = rmul lat2 toRad_r;
          a0 = rsin (rdiv (rsub phi2 phi1) (Fin 2));
          a = rmul a0 a0;
          b0 = rsin (rmul (rdiv (rsub lon2 lon1) (Fin 2)) toRad_r);
          b = rmul b0 (rmul (rmul b0 (rcos phi1)) (rcos phi2));
          ca = rmul (Fin 2) (rasin (rsqrt (radd a b)))
      in Inr (rmul (rmul ca meanR_r) (unit_factor_r unit)))"

definition SLC_r :: "dbl \<Rightarrow> dbl \<Rightarrow> dbl \<Rightarrow> dbl \<Rightarrow> Units \<Rightarrow> dbl" where
  "SLC_r lat1 lon1 lat2 lon2 unit = catch_all
     (let phi1 = rmul lat1 toRad_r;
          phi2 = rmul lat2 toRad_r;
          Deltalam = rmul (rsub lon1 lon2) toRad_r;
          ca = racos (radd (rmul (rsin phi1) (rsin phi2))
                           (rmul (rmul (rcos phi1) (rcos phi2)) (rcos Deltalam)))
      in Inr (rmul (rmul ca meanR_r) (unit_factor_r unit)))"

definition Vincenty_a_r :: dbl where
  "Vincenty_a_r = Fin 6378137.0"

definition Vincenty_f_r :: dbl where
  "Vincenty_f_r = rdiv (Fin 1.0) (round_double 298.257223563)"

definition Vincenty_b_r :: dbl where
  "Vincenty_b_r = rmul Vincenty_a_r (rsub (Fin 1.0) Vincenty_f_r)"

definition Vincenty_eps_r :: dbl where
  "Vincenty_eps_r = round_double 0.000000000001"

definition Vincenty_sinsigma_r :: "reduced \<Rightarrow> dbl \<Rightarrow> dbl" where
  "Vincenty_sinsigma_r r lam0 =
     (let sinlam = rsin lam0; coslam = rcos lam0;
          term1 = rmul (cosU2 r) sinlam;
          term2 = rsub (rmul (cosU1 r) (sinU2 r)) (rmul (rmul (sinU1 r) (cosU2 r)) coslam)
      in rsqrt (radd (rmul term1 term1) (rmul term2 term2)))"

definition Vincenty_body_r :: "reduced \<Rightarrow> dbl \<Rightarrow> body_exit" where
  "Vincenty_body_r r lam0 =
     (let sinlam = rsin lam0; coslam = rcos lam0;
          sinsig = Vincenty_sinsigma_r r lam0
      in if deq sinsig (Fin 0.0) then Return (Fin 0.0)
         else
          let cossig = radd (rmul (sinU1 r) (sinU2 r))
                            (rmul (rmul (cosU1 r) (cosU2 r)) coslam);
              sig = ratan2 sinsig cossig;
              sinalp = rdiv (rmul (rmul (cosU1 r) (cosU2 r)) sinlam) sinsig;
              sin2alp = rmul sinalp sinalp;
              cos2alp = rsub (Fin 1.0) sin2alp;
              cos2sigM =
                (if dne cos2alp (Fin 0.0)
                 then rsub cossig (rdiv (rmul (rmul (Fin 2.0) (sinU1 r)) (sinU2 r)) cos2alp)
                 else Fin 0.0);
              usq = rdiv (rmul cos2alp (rsub (rmul Vincenty_a_r Vincenty_a_r)
                                              (rmul Vincenty_b_r Vincenty_b_r)))
                         (rmul Vincenty_b_r Vincenty_b_r);
              A = radd (Fin 1.0) (rmul (rdiv usq (Fin 16384.0))
                    (radd (Fin 4096.0) (rmul usq (radd (Fin (- 768.0))
                       (rmul usq (rsub (Fin 320.0) (rmul (Fin 175.0) usq)))))));
              B = rmul (rdiv usq (Fin 1024.0))
                    (radd (Fin 256.0) (rmul usq (radd (Fin (- 128.0))
                       (rmul usq (rsub (Fin 74.0) (rmul (Fin 47.0) usq))))));
              cos2alpM2 = rmul cos2sigM cos2sigM;
              Dsig = rmul (rmul B sinsig)
                      (radd cos2sigM (rmul (rdiv B (Fin 4.0))
                         (rsub (rmul cossig (radd (Fin (- 1.0)) (rmul (Fin 2.0) cos2alpM2)))
                               (rmul (rmul (rmul (rdiv B (Fin 6.0)) cos2sigM)
                                           (radd (Fin (- 3.0))
                                                 (rmul (rmul (Fin 4.0) sinsig) sinsig)))
                                     (radd (Fin (- 3.0)) (rmul (Fin 4.0) cos2alpM2))))));
              C = rmul (rmul (rdiv Vincenty_f_r (Fin 16.0)) cos2alp)
                       (radd (Fin 4.0)
                             (rmul Vincenty_f_r (rsub (Fin 4.0) (rmul (Fin 3.0) cos2alp))));
              lam1 = radd (Deltalam r)
                       (rmul (rmul (rmul (rsub (Fin 1.0) C) Vincenty_f_r) sinalp)
                             (radd sig (rmul (rmul C sinsig)
                                (radd cos2sigM (rmul (rmul C cossig)
                                   (radd (Fin (- 1.0)) (rmul (Fin 2.0) cos2alpM2)))))))
          in Continue \<lparr>sinsigma = sinsig, cossigma = cossig, sigma = sig,
                        sinalpha = sinalp, cos2alpha = cos2alp, cos2sigmaM = cos2sigM,
                        u2 = usq, cap_A = A, cap_B = B, Deltasigma = Dsig,
                        lam = lam1, lamPrev = lam0\<rparr>)"

definition converged_r :: "locals \<Rightarrow> bool" where
  "converged_r st = dlt (dfabs (rsub (lam st) (lamPrev st))) Vincenty_eps_r"

function Vincenty_loop_r :: "reduced \<Rightarrow> dbl \<Rightarrow> int \<Rightarrow> nat \<Rightarrow> loop_exit \<times> nat" where
  "Vincenty_loop_r r lam0 iterLimit n =
     (case Vincenty_body_r r lam0 of
        Return v \<Rightarrow> (Returned v, Suc n)
      | Continue st \<Rightarrow>
          if converged_r st then (Left st iterLimit, Suc n)
          else if iterLimit - 1 > 0 then Vincenty_loop_r r (lam st) (iterLimit - 1) (Suc n)
          else (Left st (iterLimit - 1), Suc n))"
  by pat_completeness auto
termination
  by (relation "measure (\<lambda>(r, lam0, iterLimit, n). nat iterLimit)") auto

definition Vincenty_reduced_r :: "dbl \<Rightarrow> dbl \<Rightarrow> dbl \<Rightarrow> dbl \<Rightarrow> reduced" where
  "Vincenty_reduced_r lat1 lon1 lat2 lon2 =
     (let phi1 = rmul lat1 toRad_r; phi2 = rmul lat2 toRad_r;
          Dlam = rmul (rsub lon2 lon1) toRad_r;
          U1 = ratan (rmul (rsub (Fin 1) Vincenty_f_r) (rtan phi1));
          U2 = ratan (rmul (rsub (Fin 1) Vincenty_f_r) (rtan phi2))
      in \<lparr>sinU1 = rsin U1, cosU1 = rcos U1, sinU2 = rsin U2, cosU2 = rcos U2,
          Deltalam = Dlam\<rparr>)"

definition Vincenty_finish_r :: "loop_exit \<Rightarrow> Units \<Rightarrow> exn + dbl" where
  "Vincenty_finish_r ex unit =
     (case ex of
        Returned v \<Rightarrow> Inr v
      | Left st iterLimit \<Rightarrow>
          if iterLimit = 0 then Inl (runtime_error ''Vincenty: No convergence'')
          else
            let s = rdiv (rmul (rmul Vincenty_b_r (cap_A st))
                               (rsub (sigma st) (Deltasigma st))) (Fin 1000.0)
            in Inr (rmul s (unit_factor_r unit)))"

definition Vincenty_r :: "dbl \<Rightarrow> dbl \<Rightarrow> dbl \<Rightarrow> dbl \<Rightarrow> Units \<Rightarrow> dbl" where
  "Vincenty_r lat1 lon1 lat2 lon2 unit = catch_all
     (let r = Vincenty_reduced_r lat1 lon1 lat2 lon2
      in Vincenty_finish_r (fst (Vincenty_loop_r r (Deltalam r) 100 0)) unit)"

text \<open>\<open>Vincenty_head_r r l i\<close>: as \<open>Vincenty_head\<close>, for the loop in double arithmetic.\<close>

inductive Vincenty_head_r :: "reduced \<Rightarrow> dbl \<Rightarrow> int \<Rightarrow> bool" for r :: reduced where
  first: "Vincenty_head_r r (Deltalam r) 100"
| again: "Vincenty_head_r r l i \<Longrightarrow> Vincenty_body_r r l = Continue st \<Longrightarrow> \<not> converged_r st
          \<Longrightarrow> i - 1 > 0 \<Longrightarrow> Vincenty_head_r r (lam st) (i - 1)"

text \<open>\<open>fin_in lo hi v\<close>: the value \<open>v\<close> is a number, between \<open>lo\<close> and \<open>hi\<close>.\<close>

definition fin_in :: "real \<Rightarrow> real \<Rightarrow> dbl \<Rightarrow> bool" where
  "fin_in lo hi v = (\<exists>y. v = Fin y \<and> lo \<le> y \<and> y \<le> hi)"

section \<open>Properties\<close>

subsection \<open>The central angle of the sphere\<close>

lemma toRad_Fin: "toRad = Fin (pi / 180)"
  by (simp add: toRad_def pi_const_def)

lemma two_abs_mult_le: "2 * \<bar>x * y\<bar> \<le> x\<^sup>2 + y\<^sup>2" for x y :: real
proof -
  have "0 \<le> (\<bar>x\<bar> - \<bar>y\<bar>)\<^sup>2" by simp
  then show ?thesis by (simp add: power2_diff abs_mult)
qed

lemma sphere_dot_bound:
  fixes p1 p2 t :: real
  assumes "\<bar>t\<bar> \<le> 1"
  shows "\<bar>sin p1 * sin p2 + cos p1 * cos p2 * t\<bar> \<le> 1"
proof -
  have "\<bar>cos p1 * cos p2 * t\<bar> = \<bar>cos p1 * cos p2\<bar> * \<bar>t\<bar>" by (simp add: abs_mult)
  also have "\<dots> \<le> \<bar>cos p1 * cos p2\<bar> * 1"
    by (rule mult_left_mono) (use assms in auto)
  finally have c: "\<bar>cos p1 * cos p2 * t\<bar> \<le> \<bar>cos p1 * cos p2\<bar>" by simp
  have s: "2 * \<bar>sin p1 * sin p2\<bar> \<le> (sin p1)\<^sup>2 + (sin p2)\<^sup>2"
    and k: "2 * \<bar>cos p1 * cos p2\<bar> \<le> (cos p1)\<^sup>2 + (cos p2)\<^sup>2"
    by (rule two_abs_mult_le)+
  have "(sin p1)\<^sup>2 + (cos p1)\<^sup>2 = 1" "(sin p2)\<^sup>2 + (cos p2)\<^sup>2 = 1"
    by simp_all
  with s k have "\<bar>sin p1 * sin p2\<bar> + \<bar>cos p1 * cos p2\<bar> \<le> 1" by linarith
  with c show ?thesis by linarith
qed

lemma hav_identity:
  fixes p1 p2 l :: real
  shows "(sin ((p2 - p1) / 2))\<^sup>2 + cos p1 * cos p2 * (sin (l / 2))\<^sup>2
         = (1 - (sin p1 * sin p2 + cos p1 * cos p2 * cos l)) / 2"
proof -
  have s: "(sin (x / 2))\<^sup>2 = (1 - cos x) / 2" for x :: real
    using cos_double_sin [of "x / 2"] by simp
  have a: "(sin ((p2 - p1) / 2))\<^sup>2 = (1 - (cos p2 * cos p1 + sin p2 * sin p1)) / 2"
    by (simp only: s cos_diff)
  have b: "(sin (l / 2))\<^sup>2 = (1 - cos l) / 2" by (rule s)
  show ?thesis
    unfolding a b by (simp add: field_simps)
qed

lemma hav_range:
  fixes p1 p2 l :: real
  defines "h \<equiv> (sin ((p2 - p1) / 2))\<^sup>2 + cos p1 * cos p2 * (sin (l / 2))\<^sup>2"
  shows "0 \<le> h" and "h \<le> 1"
proof -
  have "\<bar>sin p1 * sin p2 + cos p1 * cos p2 * cos l\<bar> \<le> 1"
    by (rule sphere_dot_bound) simp
  then show "0 \<le> h" and "h \<le> 1"
    unfolding h_def hav_identity by (auto simp: abs_le_iff)
qed

lemma Haversine_Fin:
  "Haversine (Fin lat1) (Fin lon1) (Fin lat2) (Fin lon2) unit =
     (let phi1 = lat1 * (pi / 180); phi2 = lat2 * (pi / 180);
          Deltalam = (lon2 - lon1) * (pi / 180);
          km = 2 * arcsin (sqrt ((sin ((phi2 - phi1) / 2))\<^sup>2
                 + cos phi1 * cos phi2 * (sin (Deltalam / 2))\<^sup>2)) * 6371.009
      in Fin (if unit = US then km * (1 / 1.609344) else km))"
proof -
  define phi1 phi2 l where "phi1 = lat1 * (pi / 180)" and "phi2 = lat2 * (pi / 180)"
    and "l = (lon2 - lon1) * (pi / 180)"
  define h where "h = (sin ((phi2 - phi1) / 2))\<^sup>2 + cos phi1 * cos phi2 * (sin (l / 2))\<^sup>2"
  have h: "0 \<le> h" "h \<le> 1"
    unfolding h_def by (rule hav_range)+
  have sq: "- 1 \<le> sqrt h" "sqrt h \<le> 1"
    using h by (auto intro: order_trans [of _ 0])
  have phi: "dmul (Fin lat1) toRad = Fin phi1" "dmul (Fin lat2) toRad = Fin phi2"
    by (simp_all add: toRad_Fin phi1_def phi2_def)
  have b0: "dsin (dmul (ddiv (dsub (Fin lon2) (Fin lon1)) (Fin 2)) toRad) = Fin (sin (l / 2))"
    by (simp add: dsub_def toRad_Fin l_def)
  have a0: "dsin (ddiv (dsub (Fin phi2) (Fin phi1)) (Fin 2)) = Fin (sin ((phi2 - phi1) / 2))"
    by (simp add: dsub_def)
  have sum: "sin ((phi2 - phi1) / 2) * sin ((phi2 - phi1) / 2)
        + sin (l / 2) * (sin (l / 2) * cos phi1 * cos phi2) = h"
    by (simp add: h_def power2_eq_square algebra_simps)
  have "Haversine (Fin lat1) (Fin lon1) (Fin lat2) (Fin lon2) unit =
      dmul (dmul (dmul (Fin 2) (dasin (dsqrt (Fin h)))) meanR) (unit_factor unit)"
    unfolding Haversine_def Let_def phi a0 b0
    by (simp add: sum)
  also have "\<dots> = Fin (if unit = US then 2 * arcsin (sqrt h) * 6371.009 * (1 / 1.609344)
                        else 2 * arcsin (sqrt h) * 6371.009)"
    using h sq by (cases unit) (simp_all add: meanR_def unit_factor_def mi2km_def)
  finally show ?thesis
    unfolding Let_def h_def phi1_def phi2_def l_def by simp
qed

subsection \<open>The loop of the Vincenty method\<close>

declare Vincenty_loop.simps [simp del]

lemma loop_fst_indep: "fst (Vincenty_loop r l i n) = fst (Vincenty_loop r l i m)"
proof (induction r l i n arbitrary: m rule: Vincenty_loop.induct)
  case (1 r lam0 iterLimit n)
  show ?case
    by (subst Vincenty_loop.simps [of _ _ _ n], subst Vincenty_loop.simps [of _ _ _ m])
       (auto split: body_exit.splits intro: 1)
qed

lemma head_range: "Vincenty_head r l i \<Longrightarrow> 1 \<le> i \<and> i \<le> 100"
  by (induction rule: Vincenty_head.induct) auto

lemma loop_again:
  "Vincenty_body r l = Continue st \<Longrightarrow> \<not> converged st \<Longrightarrow> i - 1 > 0
   \<Longrightarrow> Vincenty_loop r l i n = Vincenty_loop r (lam st) (i - 1) (Suc n)"
  by (subst Vincenty_loop.simps) simp

lemma head_loop:
  "Vincenty_head r l i \<Longrightarrow> fst (Vincenty_loop r l i n) = fst (Vincenty_loop r (Deltalam r) 100 0)"
proof (induction arbitrary: n rule: Vincenty_head.induct)
  case first
  show ?case by (rule loop_fst_indep)
next
  case (again l i st)
  have "fst (Vincenty_loop r (lam st) (i - 1) n) = fst (Vincenty_loop r (lam st) (i - 1) (Suc 0))"
    by (rule loop_fst_indep)
  also have "\<dots> = fst (Vincenty_loop r l i 0)"
    using again.hyps by (simp add: loop_again)
  also have "\<dots> = fst (Vincenty_loop r (Deltalam r) 100 0)"
    by (rule again.IH)
  finally show ?case .
qed

lemma loop_count: "snd (Vincenty_loop r l i n) \<le> n + nat (max i 1)"
proof (induction r l i n rule: Vincenty_loop.induct)
  case (1 r lam0 iterLimit n)
  show ?case
  proof (cases "Vincenty_body r lam0")
    case (Return v)
    then show ?thesis by (subst Vincenty_loop.simps) simp
  next
    case (Continue st)
    show ?thesis
    proof (cases "\<not> converged st \<and> iterLimit - 1 > 0")
      case True
      with Continue 1 have "snd (Vincenty_loop r (lam st) (iterLimit - 1) (Suc n))
          \<le> Suc n + nat (max (iterLimit - 1) 1)" by simp
      moreover have "Suc n + nat (max (iterLimit - 1) 1) = n + nat (max iterLimit 1)"
        using True by linarith
      moreover have "Vincenty_loop r lam0 iterLimit n
          = Vincenty_loop r (lam st) (iterLimit - 1) (Suc n)"
        using True Continue by (intro loop_again) auto
      ultimately show ?thesis by simp
    next
      case False
      with Continue show ?thesis by (subst Vincenty_loop.simps) auto
    qed
  qed
qed

lemma loop_count_pos: "1 \<le> snd (Vincenty_loop r l i n)"
proof (induction r l i n rule: Vincenty_loop.induct)
  case (1 r lam0 iterLimit n)
  show ?case
    using 1 by (subst Vincenty_loop.simps) (auto split: body_exit.splits)
qed

lemma body_Return:
  "deq (Vincenty_sinsigma r l) (Fin 0) \<Longrightarrow> Vincenty_body r l = Return (Fin 0)"
  by (simp add: Vincenty_body_def Let_def)

lemma body_Return_iff:
  "Vincenty_body r l = Return v \<longleftrightarrow> deq (Vincenty_sinsigma r l) (Fin 0) \<and> v = Fin 0"
  by (auto simp add: Vincenty_body_def Let_def)

lemma Vincenty_from_head:
  assumes "Vincenty_head (Vincenty_reduced lat1 lon1 lat2 lon2) l i"
  shows "Vincenty lat1 lon1 lat2 lon2 unit =
    catch_all (Vincenty_finish (fst (Vincenty_loop (Vincenty_reduced lat1 lon1 lat2 lon2) l i n)) unit)"
  using head_loop [OF assms, of n] by (simp add: Vincenty_def Let_def)

subsection \<open>The loop body on numbers\<close>

lemma a_Fin: "Vincenty_a = Fin wgs_a"
  by (simp add: Vincenty_a_def wgs_a_def)

lemma f_wgs: "Vincenty_f = Fin wgs_f"
  by (simp add: Vincenty_f_def wgs_f_def)

lemma wgs_f_less: "0 < wgs_f" "wgs_f < 1"
  by (simp_all add: wgs_f_def)

lemma b_Fin: "Vincenty_b = Fin wgs_b"
  by (simp add: Vincenty_b_def a_Fin f_wgs wgs_b_def dsub_def)

lemma wgs_b_pos: "0 < wgs_b"
  using wgs_f_less by (simp add: wgs_b_def wgs_a_def)

lemma sinsigma_Fin:
  "Vincenty_sinsigma (fin_reduced p q dl) (Fin l) = Fin (fin_sinsigma p q l)"
  by (simp add: Vincenty_sinsigma_def fin_reduced_def Let_def dsub_def fin_sinsigma_def)

lemma usq_Fin:
  "ddiv (dmul (Fin c2a) (dsub (dmul Vincenty_a Vincenty_a) (dmul Vincenty_b Vincenty_b)))
        (dmul Vincenty_b Vincenty_b) = Fin (fin_u2 c2a)"
  using wgs_b_pos by (simp add: a_Fin b_Fin dsub_def fin_u2_def)

lemma A_Fin:
  "dadd (Fin 1.0) (dmul (ddiv (Fin usq) (Fin 16384.0))
      (dadd (Fin 4096.0) (dmul (Fin usq) (dadd (Fin (- 768.0))
         (dmul (Fin usq) (dsub (Fin 320.0) (dmul (Fin 175.0) (Fin usq))))))))
   = Fin (fin_A usq)"
  by (simp add: dsub_def fin_A_def)

lemma B_Fin:
  "dmul (ddiv (Fin usq) (Fin 1024.0))
      (dadd (Fin 256.0) (dmul (Fin usq) (dadd (Fin (- 128.0))
         (dmul (Fin usq) (dsub (Fin 74.0) (dmul (Fin 47.0) (Fin usq)))))))
   = Fin (fin_B usq)"
  by (simp add: dsub_def fin_B_def)

lemma Deltasigma_Fin:
  "dmul (dmul (Fin B) (Fin ss))
      (dadd (Fin c2sm) (dmul (ddiv (Fin B) (Fin 4.0))
         (dsub (dmul (Fin cs) (dadd (Fin (- 1.0)) (dmul (Fin 2.0) (dmul (Fin c2sm) (Fin c2sm)))))
               (dmul (dmul (dmul (ddiv (Fin B) (Fin 6.0)) (Fin c2sm))
                           (dadd (Fin (- 3.0)) (dmul (dmul (Fin 4.0) (Fin ss)) (Fin ss))))
                     (dadd (Fin (- 3.0)) (dmul (Fin 4.0) (dmul (Fin c2sm) (Fin c2sm))))))))
   = Fin (fin_Deltasigma B ss cs c2sm)"
  by (simp add: dsub_def fin_Deltasigma_def)

lemma C_Fin:
  "dmul (dmul (ddiv Vincenty_f (Fin 16.0)) (Fin c2a))
        (dadd (Fin 4.0) (dmul Vincenty_f (dsub (Fin 4.0) (dmul (Fin 3.0) (Fin c2a)))))
   = Fin (fin_C c2a)"
  by (simp add: dsub_def fin_C_def f_wgs)

lemma lam_Fin:
  "dadd (Fin dl)
     (dmul (dmul (dmul (dsub (Fin 1.0) (Fin C)) Vincenty_f) (Fin sa))
           (dadd (Fin sg) (dmul (dmul (Fin C) (Fin ss))
              (dadd (Fin c2sm) (dmul (dmul (Fin C) (Fin cs))
                 (dadd (Fin (- 1.0)) (dmul (Fin 2.0) (dmul (Fin c2sm) (Fin c2sm)))))))))
   = Fin (fin_lam dl C sa sg ss cs c2sm)"
  by (simp add: dsub_def fin_lam_def f_wgs)

lemma body_Fin:
  "Vincenty_body (fin_reduced p q dl) (Fin l) =
     (if fin_sinsigma p q l = 0 then Return (Fin 0)
      else Continue (fin_locals p q dl l))"
proof (cases "fin_sinsigma p q l = 0")
  case True
  then show ?thesis
    by (simp add: Vincenty_body_def sinsigma_Fin Let_def)
next
  case False
  define sa where "sa = cos p * cos q * sin l / fin_sinsigma p q l"
  have sa: "ddiv (dmul (dmul (Fin (cos p)) (Fin (cos q))) (Fin (sin l)))
      (Fin (fin_sinsigma p q l)) = Fin sa"
    using False by (simp add: sa_def)
  have cs: "dadd (dmul (Fin (sin p)) (Fin (sin q)))
      (dmul (dmul (Fin (cos p)) (Fin (cos q))) (Fin (cos l))) = Fin (fin_cossigma p q l)"
    by (simp add: fin_cossigma_def)
  have c2a: "dsub (Fin 1.0) (dmul (Fin sa) (Fin sa)) = Fin (1 - sa * sa)"
    by (simp add: dsub_def)
  have c2sm: "(if dne (Fin c) (Fin 0.0)
        then dsub (Fin (fin_cossigma p q l))
               (ddiv (dmul (dmul (Fin 2.0) (Fin (sin p))) (Fin (sin q))) (Fin c))
        else Fin 0.0)
      = Fin (if c \<noteq> 0 then fin_cossigma p q l - 2 * sin p * sin q / c else 0)" for c
    by (simp add: dne_def dsub_def)
  show ?thesis
    using False
    unfolding Vincenty_body_def Let_def sinsigma_Fin
    apply (simp only: fin_reduced_def reduced.simps dsin.simps dcos.simps
        sa cs c2a c2sm usq_Fin A_Fin B_Fin Deltasigma_Fin C_Fin lam_Fin datan2.simps)
    apply (simp add: fin_locals_def Let_def sa_def)
    done
qed

subsection \<open>The three methods on numbers\<close>

lemma U_Fin:
  "datan (dmul (dsub (Fin 1) Vincenty_f) (dtan (dmul (Fin lat) toRad))) = Fin (reduced_lat lat)"
  using wgs_f_less
  by (simp add: toRad_Fin f_wgs dsub_def reduced_lat_def Let_def inf_of_sign_def)

lemma reduced_Fin:
  "Vincenty_reduced (Fin lat1) (Fin lon1) (Fin lat2) (Fin lon2) =
     fin_reduced (reduced_lat lat1) (reduced_lat lat2) ((lon2 - lon1) * (pi / 180))"
  unfolding Vincenty_reduced_def Let_def U_Fin
  by (simp add: fin_reduced_def toRad_Fin dsub_def)

lemma Deltalam_fin_reduced [simp]: "Deltalam (fin_reduced p q dl) = Fin dl"
  by (simp add: fin_reduced_def)

lemma fin_sinsigma_same: "fin_sinsigma p p 0 = 0"
  by (simp add: fin_sinsigma_def)

lemma Vincenty_same_point:
  "Vincenty (Fin lat) (Fin lon) (Fin lat) (Fin lon) unit = Fin 0"
proof -
  have "Vincenty_loop (fin_reduced (reduced_lat lat) (reduced_lat lat) 0) (Fin 0) 100 0
      = (Returned (Fin 0), Suc 0)"
    by (subst Vincenty_loop.simps) (simp add: body_Fin fin_sinsigma_same)
  then show ?thesis
    by (simp add: Vincenty_def Let_def reduced_Fin Vincenty_finish_def)
qed

lemma dsub_shift: "dsub (dadd x (Fin d)) (dadd y (Fin d)) = dsub x y"
  by (cases x; cases y) (simp_all add: dsub_def)

lemma Haversine_shift:
  "Haversine lat1 (dadd lon1 (Fin d)) lat2 (dadd lon2 (Fin d)) unit = Haversine lat1 lon1 lat2 lon2 unit"
  by (simp only: Haversine_def dsub_shift)

lemma SLC_shift:
  "SLC lat1 (dadd lon1 (Fin d)) lat2 (dadd lon2 (Fin d)) unit = SLC lat1 lon1 lat2 lon2 unit"
  by (simp only: SLC_def dsub_shift)

lemma Vincenty_shift:
  "Vincenty lat1 (dadd lon1 (Fin d)) lat2 (dadd lon2 (Fin d)) unit = Vincenty lat1 lon1 lat2 lon2 unit"
  by (simp only: Vincenty_def Vincenty_reduced_def dsub_shift)

lemma SLC_Fin:
  "SLC (Fin lat1) (Fin lon1) (Fin lat2) (Fin lon2) unit =
     (let phi1 = lat1 * (pi / 180); phi2 = lat2 * (pi / 180);
          Deltalam = (lon1 - lon2) * (pi / 180);
          km = arccos (sin phi1 * sin phi2 + cos phi1 * cos phi2 * cos Deltalam) * 6371.009
      in Fin (if unit = US then km * (1 / 1.609344) else km))"
proof -
  define phi1 phi2 l where "phi1 = lat1 * (pi / 180)" and "phi2 = lat2 * (pi / 180)"
    and "l = (lon1 - lon2) * (pi / 180)"
  define x where "x = sin phi1 * sin phi2 + cos phi1 * cos phi2 * cos l"
  have "\<bar>x\<bar> \<le> 1"
    unfolding x_def by (rule sphere_dot_bound) simp
  then have x: "- 1 \<le> x" "x \<le> 1" by auto
  have phi: "dmul (Fin lat1) toRad = Fin phi1" "dmul (Fin lat2) toRad = Fin phi2"
    by (simp_all add: toRad_Fin phi1_def phi2_def)
  have l: "dmul (dsub (Fin lon1) (Fin lon2)) toRad = Fin l"
    by (simp add: dsub_def toRad_Fin l_def)
  have "SLC (Fin lat1) (Fin lon1) (Fin lat2) (Fin lon2) unit =
      dmul (dmul (dacos (Fin x)) meanR) (unit_factor unit)"
    unfolding SLC_def Let_def phi l by (simp add: x_def)
  also have "\<dots> = Fin (if unit = US then arccos x * 6371.009 * (1 / 1.609344)
                        else arccos x * 6371.009)"
    using x by (cases unit) (simp_all add: meanR_def unit_factor_def mi2km_def)
  finally show ?thesis
    unfolding Let_def x_def phi1_def phi2_def l_def by simp
qed



lemma sin_sq_neg: "x = - y \<Longrightarrow> (sin x)\<^sup>2 = (sin y)\<^sup>2" for x y :: real
  by simp

lemma Haversine_sym:
  "Haversine (Fin lat2) (Fin lon2) (Fin lat1) (Fin lon1) unit
   = Haversine (Fin lat1) (Fin lon1) (Fin lat2) (Fin lon2) unit"
proof -
  have a: "(sin ((lat1 * (pi / 180) - lat2 * (pi / 180)) / 2))\<^sup>2
      = (sin ((lat2 * (pi / 180) - lat1 * (pi / 180)) / 2))\<^sup>2"
    by (rule sin_sq_neg) (simp add: field_simps)
  have b: "(sin ((lon1 - lon2) * (pi / 180) / 2))\<^sup>2 = (sin ((lon2 - lon1) * (pi / 180) / 2))\<^sup>2"
    by (rule sin_sq_neg) (simp add: field_simps)
  show ?thesis
    unfolding Haversine_Fin Let_def a b by (simp add: mult.commute)
qed

lemma SLC_sym:
  "SLC (Fin lat2) (Fin lon2) (Fin lat1) (Fin lon1) unit
   = SLC (Fin lat1) (Fin lon1) (Fin lat2) (Fin lon2) unit"
proof -
  have "(lon2 - lon1) * (pi / 180) = - ((lon1 - lon2) * (pi / 180))"
    by (simp add: field_simps)
  then have c: "cos ((lon2 - lon1) * (pi / 180)) = cos ((lon1 - lon2) * (pi / 180))"
    by (simp only: cos_minus)
  show ?thesis
    unfolding SLC_Fin Let_def c by (simp add: mult.commute)
qed

subsection \<open>Exchanging the two points in the Vincenty method\<close>

lemma radicand_sym:
  fixes sp cp sq cq sl cl :: real
  assumes "sp\<^sup>2 + cp\<^sup>2 = 1" "sq\<^sup>2 + cq\<^sup>2 = 1" "sl\<^sup>2 + cl\<^sup>2 = 1"
  shows "(cp * (- sl)) * (cp * (- sl)) + (cq * sp - sq * cp * cl) * (cq * sp - sq * cp * cl)
       = (cq * sl) * (cq * sl) + (cp * sq - sp * cq * cl) * (cp * sq - sp * cq * cl)"
  using assms by algebra

lemma fin_sinsigma_sym: "fin_sinsigma q p (- l) = fin_sinsigma p q l"
  unfolding fin_sinsigma_def sin_minus cos_minus
  by (rule arg_cong [where f = sqrt], rule radicand_sym) simp_all

lemma fin_cossigma_sym: "fin_cossigma q p (- l) = fin_cossigma p q l"
  by (simp add: fin_cossigma_def mult.commute)

lemma fin_lam_neg:
  "fin_lam (- dl) C (- sa) sg ss cs c2sm = - fin_lam dl C sa sg ss cs c2sm"
  by (simp add: fin_lam_def algebra_simps)

lemma fin_locals_sym:
  "fin_locals q p (- dl) (- l) =
     (fin_locals p q dl l)
       \<lparr>sinalpha := dneg (sinalpha (fin_locals p q dl l)),
        lam := dneg (lam (fin_locals p q dl l)),
        lamPrev := dneg (lamPrev (fin_locals p q dl l))\<rparr>"
proof -
  define ss cs where "ss = fin_sinsigma p q l" and "cs = fin_cossigma p q l"
  define sa where "sa = cos p * cos q * sin l / ss"
  have sa': "cos q * cos p * sin (- l) / ss = - sa"
    by (simp add: sa_def)
  have m: "- sa * - sa = sa * sa" by simp
  have c: "2 * sin q * sin p = 2 * sin p * sin q" by simp
  show ?thesis
    unfolding fin_locals_def fin_sinsigma_sym fin_cossigma_sym
    unfolding ss_def [symmetric] cs_def [symmetric]
    unfolding sa' sa_def [symmetric] Let_def c
    by (simp add: fin_lam_neg)
qed

lemma fin_locals_lam: "\<exists>x. lam (fin_locals p q dl l) = Fin x"
  by (simp add: fin_locals_def Let_def)

lemma fin_locals_lamPrev [simp]: "lamPrev (fin_locals p q dl l) = Fin l"
  by (simp add: fin_locals_def Let_def)

lemma converged_sym:
  "converged (fin_locals q p (- dl) (- l)) = converged (fin_locals p q dl l)"
proof -
  obtain x where x: "lam (fin_locals p q dl l) = Fin x"
    using fin_locals_lam by blast
  have "\<bar>- x + l\<bar> = \<bar>x - l\<bar>" by simp
  then show ?thesis
    by (simp add: fin_locals_sym converged_def x dsub_def)
qed

lemma finish_sym:
  "Vincenty_finish (Left (fin_locals q p (- dl) (- l)) j) unit
   = Vincenty_finish (Left (fin_locals p q dl l) j) unit"
  by (simp add: fin_locals_sym Vincenty_finish_def)

lemma loop_sym:
  "Vincenty_finish (fst (Vincenty_loop (fin_reduced q p (- dl)) (Fin (- l)) i n)) unit
   = Vincenty_finish (fst (Vincenty_loop (fin_reduced p q dl) (Fin l) i n)) unit"
proof (induction "nat i" arbitrary: i l n rule: less_induct)
  case less
  let ?r = "fin_reduced p q dl" and ?r' = "fin_reduced q p (- dl)"
  show ?case
  proof (cases "fin_sinsigma p q l = 0")
    case True
    then show ?thesis
      by (subst (1 2) Vincenty_loop.simps) (simp add: body_Fin fin_sinsigma_sym)
  next
    case False
    define st st' where "st = fin_locals p q dl l" and "st' = fin_locals q p (- dl) (- l)"
    have b: "Vincenty_body ?r (Fin l) = Continue st"
      and b': "Vincenty_body ?r' (Fin (- l)) = Continue st'"
      using False by (simp_all add: body_Fin fin_sinsigma_sym st_def st'_def)
    obtain x where x: "lam st = Fin x"
      unfolding st_def using fin_locals_lam by blast
    then have x': "lam st' = Fin (- x)"
      by (simp add: st_def st'_def fin_locals_sym)
    have conv: "converged st' = converged st"
      unfolding st_def st'_def by (rule converged_sym)
    have fin: "Vincenty_finish (Left st' j) unit = Vincenty_finish (Left st j) unit" for j
      unfolding st_def st'_def by (rule finish_sym)
    show ?thesis
    proof (cases "\<not> converged st \<and> i - 1 > 0")
      case True
      then have "nat (i - 1) < nat i" by simp
      from less [OF this, of x "Suc n"] True show ?thesis
        by (simp add: loop_again [OF b] loop_again [OF b'] conv x x')
    next
      case False
      then show ?thesis
        by (subst (1 2) Vincenty_loop.simps) (auto simp add: b b' conv fin)
    qed
  qed
qed

lemma Vincenty_sym:
  "Vincenty (Fin lat2) (Fin lon2) (Fin lat1) (Fin lon1) unit
   = Vincenty (Fin lat1) (Fin lon1) (Fin lat2) (Fin lon2) unit"
proof -
  have "(lon1 - lon2) * (pi / 180) = - ((lon2 - lon1) * (pi / 180))"
    by (simp add: field_simps)
  then show ?thesis
    by (simp add: Vincenty_def Let_def reduced_Fin loop_sym)
qed

subsection \<open>Values that are not numbers\<close>

lemma dadd_NaN [simp]: "dadd x NaN = NaN"
  by (cases x) simp_all

lemma dmul_NaN [simp]: "dmul x NaN = NaN"
  by (cases x) simp_all

lemma ddiv_NaN [simp]: "ddiv x NaN = NaN"
  by (cases x) simp_all

lemma dsub_NaN [simp]: "dsub NaN y = NaN" "dsub x NaN = NaN"
  by (simp_all add: dsub_def)

lemma dadd_eq_Fin: "dadd x y = Fin z \<Longrightarrow> \<exists>a b. x = Fin a \<and> y = Fin b"
  by (cases x; cases y) simp_all

lemma dsub_eq_Fin: "dsub x y = Fin z \<Longrightarrow> \<exists>a b. x = Fin a \<and> y = Fin b"
  by (cases x; cases y) (simp_all add: dsub_def)

lemma dlt_dfabs: "dlt (dfabs x) (Fin e) \<Longrightarrow> \<exists>a. x = Fin a"
  by (cases x) simp_all

lemma converged_Fin: "converged st \<Longrightarrow> \<exists>x y. lam st = Fin x \<and> lamPrev st = Fin y"
  unfolding converged_def Vincenty_eps_def
  by (drule dlt_dfabs) (auto dest: dsub_eq_Fin)

lemma not_Fin_trig: "\<forall>x. U \<noteq> Fin x \<Longrightarrow> dsin U = NaN \<and> dcos U = NaN"
  by (cases U) auto

text \<open>What a run of the body that goes on leaves in the variables.\<close>

lemma body_sinalpha:
  "Vincenty_body r l = Continue st \<Longrightarrow>
     sinalpha st = ddiv (dmul (dmul (cosU1 r) (cosU2 r)) (dsin l)) (Vincenty_sinsigma r l)"
  by (auto simp add: Vincenty_body_def Let_def split: if_splits)

lemma body_lam_NaN:
  "Vincenty_body r l = Continue st \<Longrightarrow> sinalpha st = NaN \<Longrightarrow> lam st = NaN"
  by (auto simp add: Vincenty_body_def Let_def split: if_splits)

lemma body_lamPrev: "Vincenty_body r l = Continue st \<Longrightarrow> lamPrev st = l"
  by (auto simp add: Vincenty_body_def Let_def split: if_splits)

lemma body_lam_shape:
  "Vincenty_body r l = Continue st \<Longrightarrow> \<exists>X. lam st = dadd (Deltalam r) X"
  unfolding Vincenty_body_def Let_def
  by (cases "deq (Vincenty_sinsigma r l) (Fin 0)") (auto intro!: exI)

lemma body_lam_Deltalam:
  "Vincenty_body r l = Continue st \<Longrightarrow> lam st = Fin x \<Longrightarrow> \<exists>d. Deltalam r = Fin d"
  using body_lam_shape [of r l st] by (metis dadd_eq_Fin)

lemma converged_fin_reduced:
  assumes b: "Vincenty_body \<lparr>sinU1 = dsin U1, cosU1 = dcos U1, sinU2 = dsin U2,
                 cosU2 = dcos U2, Deltalam = D\<rparr> l = Continue st"
    and c: "converged st"
  shows "\<exists>p q dl x. U1 = Fin p \<and> U2 = Fin q \<and> D = Fin dl \<and> l = Fin x"
proof -
  let ?r = "\<lparr>sinU1 = dsin U1, cosU1 = dcos U1, sinU2 = dsin U2, cosU2 = dcos U2, Deltalam = D\<rparr>"
  from converged_Fin [OF c] obtain x y where x: "lam st = Fin x" and y: "lamPrev st = Fin y"
    by blast
  have l: "l = Fin y"
    using body_lamPrev [OF b] y by simp
  have sa: "sinalpha st \<noteq> NaN"
    using body_lam_NaN [OF b] x by auto
  have sa_eq: "sinalpha st = ddiv (dmul (dmul (dcos U1) (dcos U2)) (dsin l)) (Vincenty_sinsigma ?r l)"
    using body_sinalpha [OF b] by simp
  have "\<exists>p. U1 = Fin p"
  proof (rule ccontr)
    assume "\<not> ?thesis"
    then have "dcos U1 = NaN" using not_Fin_trig [of U1] by simp
    with sa_eq sa show False by simp
  qed
  moreover have "\<exists>q. U2 = Fin q"
  proof (rule ccontr)
    assume "\<not> ?thesis"
    then have "dcos U2 = NaN" using not_Fin_trig [of U2] by simp
    with sa_eq sa show False by simp
  qed
  moreover have "\<exists>d. D = Fin d"
    using body_lam_Deltalam [OF b x] by simp
  ultimately show ?thesis using l by blast
qed

lemma reduced_shape:
  "\<exists>U1 U2 D. Vincenty_reduced lat1 lon1 lat2 lon2 =
     \<lparr>sinU1 = dsin U1, cosU1 = dcos U1, sinU2 = dsin U2, cosU2 = dcos U2, Deltalam = D\<rparr>"
  unfolding Vincenty_reduced_def Let_def by (intro exI) (rule refl)

lemma converged_numbers:
  assumes "Vincenty_body (Vincenty_reduced lat1 lon1 lat2 lon2) l = Continue st"
    and "converged st"
  shows "\<exists>p q dl x. Vincenty_reduced lat1 lon1 lat2 lon2 = fin_reduced p q dl \<and> l = Fin x"
proof -
  obtain U1 U2 D where r: "Vincenty_reduced lat1 lon1 lat2 lon2 =
     \<lparr>sinU1 = dsin U1, cosU1 = dcos U1, sinU2 = dsin U2, cosU2 = dcos U2, Deltalam = D\<rparr>"
    using reduced_shape by blast
  from converged_fin_reduced [OF assms(1) [unfolded r] assms(2)]
  obtain p q dl x where "U1 = Fin p" "U2 = Fin q" "D = Fin dl" "l = Fin x" by blast
  then show ?thesis
    unfolding r by (auto simp add: fin_reduced_def)
qed

lemma loop_exhaust:
  assumes never: "\<forall>l i. Vincenty_head r l i \<longrightarrow> (\<exists>st. Vincenty_body r l = Continue st \<and> \<not> converged st)"
    and "Vincenty_head r l i"
  shows "\<exists>st. Vincenty_loop r l i n = (Left st 0, n + nat i)"
  using assms(2)
proof (induction "nat i" arbitrary: i l n rule: less_induct)
  case less
  from never less.prems obtain st where b: "Vincenty_body r l = Continue st"
    and c: "\<not> converged st" by blast
  have i: "1 \<le> i" using head_range [OF less.prems] by simp
  show ?case
  proof (cases "i - 1 > 0")
    case True
    have h: "Vincenty_head r (lam st) (i - 1)"
      using less.prems b c True by (rule Vincenty_head.again)
    have "nat (i - 1) < nat i" using True by simp
    from less.hyps [OF this h, of "Suc n"] obtain st' where
      "Vincenty_loop r (lam st) (i - 1) (Suc n) = (Left st' 0, Suc n + nat (i - 1))" by blast
    moreover have "Suc n + nat (i - 1) = n + nat i" using True by linarith
    ultimately show ?thesis
      using loop_again [OF b c True, of n] by auto
  next
    case False
    with i have "i = 1" by simp
    then show ?thesis
      using b c by (subst Vincenty_loop.simps) simp
  qed
qed

lemma loop_converged:
  "Vincenty_body r l = Continue st \<Longrightarrow> converged st
   \<Longrightarrow> Vincenty_loop r l i n = (Left st i, Suc n)"
  by (subst Vincenty_loop.simps) simp

subsection \<open>The distance computed after the loop is positive\<close>

lemma unit_alg:
  fixes sp cp sq cq sl cl :: real
  assumes "sp\<^sup>2 + cp\<^sup>2 = 1" "sq\<^sup>2 + cq\<^sup>2 = 1" "sl\<^sup>2 + cl\<^sup>2 = 1"
  shows "(cq * sl) * (cq * sl) + (cp * sq - sp * cq * cl) * (cp * sq - sp * cq * cl)
         + (sp * sq + cp * cq * cl)\<^sup>2 = 1"
  using assms by algebra

lemma fin_sinsigma_nonneg: "0 \<le> fin_sinsigma p q l"
  by (simp add: fin_sinsigma_def)

lemma fin_sigma_unit: "(fin_sinsigma p q l)\<^sup>2 + (fin_cossigma p q l)\<^sup>2 = 1"
proof -
  have "(fin_sinsigma p q l)\<^sup>2 =
      (cos q * sin l) * (cos q * sin l)
      + (cos p * sin q - sin p * cos q * cos l) * (cos p * sin q - sin p * cos q * cos l)"
    unfolding fin_sinsigma_def by (rule real_sqrt_pow2) simp
  then show ?thesis
    unfolding fin_cossigma_def by (simp only: unit_alg sin_cos_squared_add)
qed

lemma atan2_unit:
  assumes y: "0 < y" and u: "y\<^sup>2 + x\<^sup>2 = 1"
  shows "sin (atan2 y x) = y" and "0 < atan2 y x"
proof -
  have r: "sqrt (1 + (y / x)\<^sup>2) = 1 / \<bar>x\<bar>" if "x \<noteq> 0"
  proof -
    have "1 + (y / x)\<^sup>2 = (y\<^sup>2 + x\<^sup>2) / x\<^sup>2"
      using that by (simp add: power_divide field_simps)
    also have "\<dots> = (1 / \<bar>x\<bar>)\<^sup>2"
      by (simp add: u power_divide)
    finally show ?thesis
      by (simp add: real_sqrt_unique)
  qed
  consider "0 < x" | "x < 0" | "x = 0" by linarith
  then have "sin (atan2 y x) = y \<and> 0 < atan2 y x"
  proof cases
    case 1
    then have "sin (arctan (y / x)) = y"
      using r [of] by (simp add: sin_arctan)
    moreover have "0 < arctan (y / x)"
      using 1 y by simp
    ultimately show ?thesis using 1 by (simp add: atan2_def)
  next
    case 2
    then have "sin (arctan (y / x)) = - y"
      using r by (simp add: sin_arctan)
    moreover have "0 < arctan (y / x) + pi"
      using arctan_lbound [of "y / x"] pi_gt_zero by linarith
    ultimately show ?thesis using 2 y by (simp add: atan2_def)
  next
    case 3
    with u have "y\<^sup>2 = 1" by simp
    with y have "y = 1" by (simp add: power2_eq_1_iff)
    with 3 show ?thesis by (simp add: atan2_def)
  qed
  then show "sin (atan2 y x) = y" and "0 < atan2 y x" by simp_all
qed

lemma sinalpha_bound:
  assumes "fin_sinsigma p q l \<noteq> 0"
  shows "\<bar>cos p * cos q * sin l / fin_sinsigma p q l\<bar> \<le> 1"
proof -
  define N where "N = cos p * cos q * sin l"
  define R where "R = (cos q * sin l) * (cos q * sin l)
      + (cos p * sin q - sin p * cos q * cos l) * (cos p * sin q - sin p * cos q * cos l)"
  have "N\<^sup>2 = (cos p)\<^sup>2 * (cos q * sin l)\<^sup>2"
    by (simp add: N_def power2_eq_square)
  also have "\<dots> \<le> 1 * (cos q * sin l)\<^sup>2"
    by (rule mult_right_mono) (simp_all add: abs_square_le_1)
  also have "\<dots> \<le> R"
    by (simp add: R_def power2_eq_square)
  finally have "\<bar>N\<bar>\<^sup>2 \<le> R" by simp
  then have "\<bar>N\<bar> \<le> sqrt R" by (rule real_le_rsqrt)
  then have "\<bar>N\<bar> \<le> fin_sinsigma p q l"
    by (simp add: fin_sinsigma_def R_def)
  moreover have "0 < fin_sinsigma p q l"
    using assms fin_sinsigma_nonneg [of p q l] by simp
  ultimately show ?thesis
    by (simp add: N_def [symmetric])
qed

lemma ecc_bounds:
  "0 < (wgs_a * wgs_a - wgs_b * wgs_b) / (wgs_b * wgs_b)"
  "(wgs_a * wgs_a - wgs_b * wgs_b) / (wgs_b * wgs_b) \<le> 68 / 10000"
  by (simp_all add: wgs_a_def wgs_b_def wgs_f_def)

lemma fin_u2_bounds:
  assumes "0 \<le> c" "c \<le> 1"
  shows "0 \<le> fin_u2 c" and "fin_u2 c \<le> 68 / 10000"
proof -
  define k where "k = (wgs_a * wgs_a - wgs_b * wgs_b) / (wgs_b * wgs_b)"
  have k: "0 < k" "k \<le> 68 / 10000"
    unfolding k_def by (rule ecc_bounds)+
  have e: "fin_u2 c = c * k" by (simp add: fin_u2_def k_def)
  show "0 \<le> fin_u2 c" using assms k by (simp add: e)
  have "c * k \<le> 1 * k" using assms k by (intro mult_right_mono) simp_all
  with k have "c * k \<le> 68 / 10000" by linarith
  then show "fin_u2 c \<le> 68 / 10000" by (simp only: e)
qed

lemma fin_A_ge_1:
  assumes "0 \<le> u" "u \<le> 68 / 10000"
  shows "1 \<le> fin_A u"
proof -
  have "0 \<le> u * (320 - 175 * u)"
    using assms by (intro mult_nonneg_nonneg) simp_all
  then have "u * (- 768) \<le> u * (- 768 + u * (320 - 175 * u))"
    using assms by (intro mult_left_mono) simp_all
  then have "0 \<le> 4096 + u * (- 768 + u * (320 - 175 * u))"
    using assms by linarith
  then have "0 \<le> u / 16384 * (4096 + u * (- 768 + u * (320 - 175 * u)))"
    using assms by (intro mult_nonneg_nonneg) simp_all
  then show ?thesis by (simp add: fin_A_def)
qed

text \<open>The factor of B after u / 1024.\<close>

lemma fin_B_factor:
  fixes u :: real
  assumes "0 \<le> u" "u \<le> 68 / 10000"
  shows "0 \<le> 256 + u * (- 128 + u * (74 - 47 * u))"
    and "256 + u * (- 128 + u * (74 - 47 * u)) \<le> 256"
proof -
  have a: "0 \<le> u * (74 - 47 * u)"
    using assms by (intro mult_nonneg_nonneg) simp_all
  have "u * (74 - 47 * u) \<le> u * 74"
    using assms by (intro mult_left_mono) simp_all
  with assms have b: "u * (74 - 47 * u) \<le> 1" by linarith
  have "u * (- 128) \<le> u * (- 128 + u * (74 - 47 * u))"
    using assms a by (intro mult_left_mono) simp_all
  with assms show "0 \<le> 256 + u * (- 128 + u * (74 - 47 * u))" by linarith
  have "u * (- 128 + u * (74 - 47 * u)) \<le> 0"
    using assms b by (intro mult_nonneg_nonpos) simp_all
  then show "256 + u * (- 128 + u * (74 - 47 * u)) \<le> 256" by simp
qed

lemma fin_B_bounds:
  assumes "0 \<le> u" "u \<le> 68 / 10000"
  shows "0 \<le> fin_B u" and "fin_B u \<le> 1 / 100"
proof -
  define J where "J = 256 + u * (- 128 + u * (74 - 47 * u))"
  have J: "0 \<le> J" "J \<le> 256"
    unfolding J_def using assms by (rule fin_B_factor)+
  have e: "fin_B u = u / 1024 * J" by (simp add: fin_B_def J_def)
  show "0 \<le> fin_B u" using assms J by (simp add: e)
  have "u / 1024 * J \<le> u / 1024 * 256"
    using assms J by (intro mult_left_mono) simp_all
  with assms show "fin_B u \<le> 1 / 100" by (simp add: e)
qed

lemma abs_mult_bound:
  fixes a b :: real
  shows "\<bar>a\<bar> \<le> x \<Longrightarrow> \<bar>b\<bar> \<le> y \<Longrightarrow> \<bar>a * b\<bar> \<le> x * y"
  by (simp add: abs_mult mult_mono)

text \<open>B times the cosine of 2 sigma m stays small, however small the divisor.\<close>

lemma fin_B_cos2sigmaM:
  assumes c: "0 \<le> c" "c \<le> 1" and cs: "\<bar>cs\<bar> \<le> 1" and sp: "\<bar>sp\<bar> \<le> 1" and sq: "\<bar>sq\<bar> \<le> 1"
  shows "\<bar>fin_B (fin_u2 c) * (if c \<noteq> 0 then cs - 2 * sp * sq / c else 0)\<bar> \<le> 1 / 100"
proof (cases "c = 0")
  case True
  then show ?thesis by simp
next
  case False
  define k where "k = (wgs_a * wgs_a - wgs_b * wgs_b) / (wgs_b * wgs_b)"
  have k: "0 < k" "k \<le> 68 / 10000"
    unfolding k_def by (rule ecc_bounds)+
  define u where "u = fin_u2 c"
  have u: "0 \<le> u" "u \<le> 68 / 10000"
    unfolding u_def using c by (rule fin_u2_bounds)+
  have uc: "u = c * k" by (simp add: u_def fin_u2_def k_def)
  define J where "J = 256 + u * (- 128 + u * (74 - 47 * u))"
  have J: "0 \<le> J" "J \<le> 256"
    unfolding J_def using u by (rule fin_B_factor)+
  have "fin_B u * (cs - 2 * sp * sq / c) = c * k / 1024 * J * (cs - 2 * sp * sq / c)"
    by (simp add: fin_B_def J_def uc)
  also have "\<dots> = k / 1024 * J * (c * cs - 2 * sp * sq)"
    using False by (simp add: field_simps)
  finally have e: "fin_B u * (cs - 2 * sp * sq / c) = k / 1024 * J * (c * cs - 2 * sp * sq)" .
  have "\<bar>c\<bar> \<le> 1" using c by simp
  then have "\<bar>c * cs\<bar> \<le> 1 * 1"
    using cs by (rule abs_mult_bound)
  moreover have "\<bar>sp * sq\<bar> \<le> 1 * 1"
    using sp sq by (rule abs_mult_bound)
  ultimately have t: "\<bar>c * cs - 2 * sp * sq\<bar> \<le> 3" by linarith
  have "k / 1024 * J \<le> k / 1024 * 256"
    using k J by (intro mult_left_mono) simp_all
  with k have "k / 1024 * J \<le> 17 / 10000" by linarith
  moreover have "0 \<le> k / 1024 * J" using k J by simp
  ultimately have "\<bar>k / 1024 * J\<bar> \<le> 17 / 10000" by simp
  from abs_mult_bound [OF this t] show ?thesis
    using False by (simp add: e u_def [symmetric])
qed

text \<open>The correction of sigma is at most half the sine of sigma.\<close>

lemma fin_Deltasigma_bound:
  assumes B: "0 \<le> B" "B \<le> 1 / 100" and X: "\<bar>B * m\<bar> \<le> 1 / 100"
    and ss: "0 \<le> ss" "ss \<le> 1" and cs: "\<bar>cs\<bar> \<le> 1"
  shows "\<bar>fin_Deltasigma B ss cs m\<bar> \<le> ss / 2"
proof -
  define X where "X = B * m"
  have X: "\<bar>X\<bar> \<le> 1 / 100" using X by (simp add: X_def)
  define U V W where "U = - (B * B) + 2 * (X * X)" and "V = - 3 + 4 * (ss * ss)"
    and "W = - 3 * (B * B) + 4 * (X * X)"
  define E where "E = X + 1 / 4 * (cs * U - 1 / 6 * (X * V * W))"
  have e: "fin_Deltasigma B ss cs m = ss * E"
    by (simp add: fin_Deltasigma_def E_def U_def V_def W_def X_def field_simps)
  have b2: "0 \<le> B * B" "B * B \<le> 1 / 100 * (1 / 100)"
  proof -
    show "0 \<le> B * B" by simp
    show "B * B \<le> 1 / 100 * (1 / 100)"
      using B by (intro mult_mono) simp_all
  qed
  have "\<bar>X * X\<bar> \<le> 1 / 100 * (1 / 100)"
    using X X by (rule abs_mult_bound)
  then have x2: "0 \<le> X * X" "X * X \<le> 1 / 100 * (1 / 100)" by simp_all
  have s2: "0 \<le> ss * ss" "ss * ss \<le> 1 * 1"
  proof -
    show "0 \<le> ss * ss" by simp
    show "ss * ss \<le> 1 * 1"
      using ss by (intro mult_mono) simp_all
  qed
  have U: "\<bar>U\<bar> \<le> 1 / 1000" unfolding U_def using b2 x2 by linarith
  have V: "\<bar>V\<bar> \<le> 3" unfolding V_def using s2 by linarith
  have W: "\<bar>W\<bar> \<le> 1 / 1000" unfolding W_def using b2 x2 by linarith
  have csU: "\<bar>cs * U\<bar> \<le> 1 * (1 / 1000)"
    using cs U by (rule abs_mult_bound)
  have XV: "\<bar>X * V\<bar> \<le> 1 / 100 * 3"
    using X V by (rule abs_mult_bound)
  have XVW: "\<bar>X * V * W\<bar> \<le> 1 / 100 * 3 * (1 / 1000)"
    using XV W by (rule abs_mult_bound)
  define P Q where "P = cs * U" and "Q = X * V * W"
  have "\<bar>P\<bar> \<le> 1 / 1000" "\<bar>Q\<bar> \<le> 3 / 100000"
    using csU XVW by (simp_all add: P_def Q_def)
  then have "\<bar>X + 1 / 4 * (P - 1 / 6 * Q)\<bar> \<le> 1 / 2"
    using X by argo
  then have "\<bar>E\<bar> \<le> 1 / 2"
    by (simp only: E_def P_def Q_def)
  have "\<bar>ss\<bar> \<le> ss" using ss by simp
  from abs_mult_bound [OF this \<open>\<bar>E\<bar> \<le> 1 / 2\<close>]
  show ?thesis by (simp add: e)
qed

lemma fin_locals_distance:
  assumes nz: "fin_sinsigma p q l \<noteq> 0"
  shows "\<exists>A sg Ds. cap_A (fin_locals p q dl l) = Fin A \<and> sigma (fin_locals p q dl l) = Fin sg
     \<and> Deltasigma (fin_locals p q dl l) = Fin Ds \<and> 1 \<le> A \<and> 0 < sg - Ds"
proof -
  define ss cs where "ss = fin_sinsigma p q l" and "cs = fin_cossigma p q l"
  define sa where "sa = cos p * cos q * sin l / ss"
  define c where "c = 1 - sa * sa"
  define m where "m = (if c \<noteq> 0 then cs - 2 * sin p * sin q / c else 0)"
  define u where "u = fin_u2 c"
  have ss: "0 < ss" "ss \<le> 1" and cs: "\<bar>cs\<bar> \<le> 1"
  proof -
    show "0 < ss" using nz fin_sinsigma_nonneg [of p q l] by (simp add: ss_def)
    have one: "ss\<^sup>2 + cs\<^sup>2 = 1" unfolding ss_def cs_def by (rule fin_sigma_unit)
    then have "ss\<^sup>2 \<le> 1" "cs\<^sup>2 \<le> 1"
      using zero_le_power2 [of ss] zero_le_power2 [of cs] by linarith+
    then have "\<bar>ss\<bar> \<le> 1" "\<bar>cs\<bar> \<le> 1" by (simp_all add: abs_square_le_1)
    then show "ss \<le> 1" "\<bar>cs\<bar> \<le> 1" by simp_all
  qed
  have "\<bar>sa\<bar> \<le> 1"
    unfolding sa_def ss_def using nz by (rule sinalpha_bound)
  then have "sa\<^sup>2 \<le> 1" by (simp add: abs_square_le_1)
  then have c: "0 \<le> c" "c \<le> 1"
    by (simp_all add: c_def power2_eq_square [symmetric])
  have u: "0 \<le> u" "u \<le> 68 / 10000"
    unfolding u_def using c by (rule fin_u2_bounds)+
  have B: "0 \<le> fin_B u" "fin_B u \<le> 1 / 100"
    using u by (rule fin_B_bounds)+
  have X: "\<bar>fin_B u * m\<bar> \<le> 1 / 100"
    unfolding u_def m_def using c cs by (intro fin_B_cos2sigmaM) simp_all
  have D: "\<bar>fin_Deltasigma (fin_B u) ss cs m\<bar> \<le> ss / 2"
    using B X ss cs by (intro fin_Deltasigma_bound) simp_all
  have one: "ss\<^sup>2 + cs\<^sup>2 = 1" unfolding ss_def cs_def by (rule fin_sigma_unit)
  have sg: "sin (atan2 ss cs) = ss" "0 < atan2 ss cs"
    using ss(1) one by (rule atan2_unit)+
  have "sin (atan2 ss cs) \<le> atan2 ss cs"
    using sg(2) by (intro sin_x_le_x) simp
  with sg D ss have pos: "0 < atan2 ss cs - fin_Deltasigma (fin_B u) ss cs m" by linarith
  have A: "1 \<le> fin_A u" using u by (rule fin_A_ge_1)
  have "cap_A (fin_locals p q dl l) = Fin (fin_A u)"
    "sigma (fin_locals p q dl l) = Fin (atan2 ss cs)"
    "Deltasigma (fin_locals p q dl l) = Fin (fin_Deltasigma (fin_B u) ss cs m)"
    by (simp_all add: fin_locals_def Let_def ss_def cs_def sa_def c_def m_def u_def)
  with A pos show ?thesis by blast
qed

lemma unit_factor_Fin: "unit_factor unit = Fin (if unit = SI then 1 else 1 / 1.609344)"
  by (simp add: unit_factor_def mi2km_def)

lemma unit_factor_pos: "\<exists>k. unit_factor unit = Fin k \<and> 0 < k"
  unfolding unit_factor_Fin by (intro exI conjI, rule refl) simp

lemma fin_finish_positive:
  assumes nz: "fin_sinsigma p q l \<noteq> 0" and i: "i \<noteq> 0"
  shows "\<exists>x. Vincenty_finish (Left (fin_locals p q dl l) i) unit = Inr (Fin x) \<and> 0 < x"
proof -
  from fin_locals_distance [OF nz, of dl] obtain A sg Ds where
    st: "cap_A (fin_locals p q dl l) = Fin A" "sigma (fin_locals p q dl l) = Fin sg"
      "Deltasigma (fin_locals p q dl l) = Fin Ds" and A: "1 \<le> A" and d: "0 < sg - Ds"
    by blast
  obtain k where k: "unit_factor unit = Fin k" "0 < k"
    using unit_factor_pos by blast
  have "0 < wgs_b * A * (sg - Ds) / 1000 * k"
    using wgs_b_pos A d k by simp
  moreover have "Vincenty_finish (Left (fin_locals p q dl l) i) unit
      = Inr (Fin (wgs_b * A * (sg - Ds) / 1000 * k))"
    using i by (simp add: Vincenty_finish_def st k b_Fin dsub_def)
  ultimately show ?thesis by blast
qed

subsection \<open>Two calls: one that never converges, one that converges at once\<close>

lemma body_NaN:
  assumes "cosU1 r = NaN"
  shows "\<exists>st. Vincenty_body r l = Continue st \<and> \<not> converged st"
proof -
  have t: "Vincenty_sinsigma r l = NaN"
    using assms by (simp add: Vincenty_sinsigma_def Let_def)
  then obtain st where b: "Vincenty_body r l = Continue st"
    by (simp add: Vincenty_body_def Let_def)
  have "sinalpha st = NaN"
    using body_sinalpha [OF b] assms by simp
  then have "lam st = NaN" using body_lam_NaN [OF b] by simp
  then have "\<not> converged st" by (simp add: converged_def)
  with b show ?thesis by blast
qed

lemma same_meridian:
  assumes "fin_sinsigma p q 0 \<noteq> 0"
  shows "converged (fin_locals p q 0 0)"
  by (simp add: fin_locals_def Let_def fin_lam_def converged_def Vincenty_eps_def dsub_def)

lemma reduced_lat_0: "reduced_lat 0 = 0"
  by (simp add: reduced_lat_def)

lemma reduced_zero: "Vincenty_reduced (Fin 0) (Fin 0) (Fin 0) (Fin 0) = fin_reduced 0 0 0"
  by (simp add: reduced_Fin reduced_lat_0)

lemma reduced_lat_45: "reduced_lat 45 = arctan (1 - wgs_f)"
proof -
  have "(45::real) * (pi / 180) = pi / 4" by simp
  then show ?thesis
    by (simp add: reduced_lat_def Let_def cos_45 tan_45)
qed

lemma reduced_lat_45_sin: "sin (reduced_lat 45) \<noteq> 0"
proof -
  have "0 < arctan (1 - wgs_f)" using wgs_f_less by simp
  moreover have "arctan (1 - wgs_f) < pi"
    using arctan_ubound [of "1 - wgs_f"] pi_gt_zero by linarith
  ultimately have "0 < sin (arctan (1 - wgs_f))" by (rule sin_gt_zero)
  then show ?thesis by (simp add: reduced_lat_45)
qed

lemma equator_quarter:
  "fin_sinsigma 0 0 (pi / 2) = 1"
  "cos2alpha (fin_locals 0 0 (pi / 2) (pi / 2)) = Fin 0"
  "cos2sigmaM (fin_locals 0 0 (pi / 2) (pi / 2)) = Fin 0"
  by (simp_all add: fin_sinsigma_def fin_locals_def Let_def)

lemma meridian_45:
  "cos2alpha (fin_locals 0 (reduced_lat 45) 0 0) = Fin 1"
  by (simp add: fin_locals_def Let_def)

subsection \<open>Rounding to the nearest double\<close>

lemma rhe_err: "\<bar>of_int (rhe m) - m\<bar> \<le> 1 / 2"
  unfolding rhe_def Let_def by (auto simp: abs_le_iff)

lemma rhe_of_int [simp]: "rhe (of_int k) = k"
  by (simp add: rhe_def)

lemma rhe_small: "\<bar>m\<bar> \<le> 1 / 2 \<Longrightarrow> rhe m = 0"
proof -
  assume a: "\<bar>m\<bar> \<le> 1 / 2"
  consider "0 \<le> m" | "m < 0" by linarith
  then show ?thesis
  proof cases
    case 1
    with a have "\<lfloor>m\<rfloor> = 0" by (intro floor_unique) auto
    with a 1 show ?thesis by (auto simp: rhe_def Let_def)
  next
    case 2
    with a have "\<lfloor>m\<rfloor> = - 1" by (intro floor_unique) auto
    with a 2 show ?thesis by (auto simp: rhe_def Let_def)
  qed
qed

lemma rhe_near:
  assumes "\<bar>m - of_int k\<bar> < 1 / 2"
  shows "rhe m = k"
proof (cases "of_int k \<le> m")
  case True
  with assms have "\<lfloor>m\<rfloor> = k" by (intro floor_unique) auto
  with assms True show ?thesis by (auto simp: rhe_def Let_def)
next
  case False
  with assms have "\<lfloor>m\<rfloor> = k - 1" by (intro floor_unique) auto
  with assms False show ?thesis by (auto simp: rhe_def Let_def)
qed

lemma rhe_nonpos: "m \<le> 0 \<Longrightarrow> rhe m \<le> 0"
proof -
  assume a: "m \<le> 0"
  have e: "\<bar>of_int (rhe m) - m\<bar> \<le> 1 / 2" by (rule rhe_err)
  then have "real_of_int (rhe m) \<le> 1 / 2" using a by linarith
  then show ?thesis by linarith
qed

lemma rhe_nonneg: "0 \<le> m \<Longrightarrow> 0 \<le> rhe m"
proof -
  assume a: "0 \<le> m"
  have e: "\<bar>of_int (rhe m) - m\<bar> \<le> 1 / 2" by (rule rhe_err)
  then have "- 1 / 2 \<le> real_of_int (rhe m)" using a by linarith
  then show ?thesis by linarith
qed

lemma round_double_binade:
  assumes "2 powr of_int k \<le> \<bar>x\<bar>" "\<bar>x\<bar> < 2 powr of_int (k + 1)" "- 1022 \<le> k"
  shows "round_double x =
     (let u = 2 powr of_int (k - 52); y = of_int (rhe (x / u)) * u
      in if 2 powr 1024 \<le> \<bar>y\<bar> then inf_of_sign x else Fin y)"
proof -
  have "0 < (2::real) powr of_int k" by simp
  with assms(1) have pos: "0 < \<bar>x\<bar>" by linarith
  then have "x \<noteq> 0" by simp
  have "\<lfloor>log 2 \<bar>x\<bar>\<rfloor> = k"
    using assms pos by (subst floor_log_eq_powr_iff) simp_all
  then show ?thesis
    using assms(3) \<open>x \<noteq> 0\<close> by (simp add: round_double_def Let_def max_def)
qed

lemma round_double_subnormal:
  assumes "x \<noteq> 0" "\<bar>x\<bar> < 2 powr (- 1022)"
  shows "round_double x = Fin (of_int (rhe (x / 2 powr (- 1074))) * 2 powr (- 1074))"
proof -
  have "log 2 \<bar>x\<bar> < - 1022"
    using assms by (subst log_less_iff) simp_all
  then have "\<lfloor>log 2 \<bar>x\<bar>\<rfloor> < - 1022" by linarith
  then have e: "max \<lfloor>log 2 \<bar>x\<bar>\<rfloor> (- 1022) = - 1022" by simp
  define u :: real where "u = 2 powr (- 1074)"
  have u: "0 < u" by (simp add: u_def)
  have "\<bar>of_int (rhe (x / u)) - x / u\<bar> \<le> 1 / 2" by (rule rhe_err)
  then have "\<bar>of_int (rhe (x / u)) * u - x\<bar> \<le> u / 2"
    using u by (simp add: field_simps abs_le_iff)
  then have "\<bar>of_int (rhe (x / u)) * u\<bar> \<le> \<bar>x\<bar> + u / 2" by linarith
  also have "\<dots> < 2 powr (- 1022) + 2 powr (- 1074)"
    using assms u unfolding u_def by linarith
  also have "\<dots> \<le> 2 powr 1024"
  proof -
    have "(2::real) powr (- 1022) \<le> 2 powr 0" "(2::real) powr (- 1074) \<le> 2 powr 0"
      by (rule powr_mono; simp)+
    moreover have "(2::real) powr 1 \<le> 2 powr 1024" by (rule powr_mono) simp_all
    ultimately show ?thesis by simp
  qed
  finally have "\<not> 2 powr 1024 \<le> \<bar>of_int (rhe (x / u)) * u\<bar>" by simp
  then show ?thesis
    using assms(1) by (simp add: round_double_def Let_def e u_def)
qed

lemma round_double_underflow:
  assumes "\<bar>x\<bar> \<le> 2 powr (- 1075)"
  shows "round_double x = Fin 0"
proof (cases "x = 0")
  case True
  then show ?thesis by (simp add: round_double_def)
next
  case False
  have "(2::real) powr (- 1075) < 2 powr (- 1022)" by (rule powr_less_mono) simp_all
  with assms have "\<bar>x\<bar> < 2 powr (- 1022)" by linarith
  from round_double_subnormal [OF False this]
  have r: "round_double x = Fin (of_int (rhe (x / 2 powr (- 1074))) * 2 powr (- 1074))" .
  have "(2::real) powr (- 1075) = 2 powr (- 1074) / 2"
    using powr_add [of "2::real" "- 1075" 1] by simp
  with assms have "\<bar>x / 2 powr (- 1074)\<bar> \<le> 1 / 2"
    by (simp add: field_simps)
  then have "rhe (x / 2 powr (- 1074)) = 0" by (rule rhe_small)
  with r show ?thesis by simp
qed

lemma round_double_error:
  assumes "\<bar>x\<bar> \<le> 2 ^ 1023"
  shows "\<exists>y. round_double x = Fin y \<and> \<bar>y - x\<bar> \<le> \<bar>x\<bar> / 2 ^ 53 + 1 / 2 ^ 1075
     \<and> (0 \<le> x \<longrightarrow> 0 \<le> y) \<and> (x \<le> 0 \<longrightarrow> y \<le> 0)"
proof (cases "x = 0")
  case True
  then show ?thesis by (simp add: round_double_def)
next
  case False
  define e where "e = max \<lfloor>log 2 \<bar>x\<bar>\<rfloor> (- 1022)"
  define u :: real where "u = 2 powr of_int (e - 52)"
  define y where "y = of_int (rhe (x / u)) * u"
  have u: "0 < u" by (simp add: u_def)
  have "\<bar>of_int (rhe (x / u)) - x / u\<bar> \<le> 1 / 2" by (rule rhe_err)
  then have err: "\<bar>y - x\<bar> \<le> u / 2"
    using u by (simp add: y_def field_simps abs_le_iff)
  have half: "u / 2 = 2 powr of_int (e - 53)"
  proof -
    have "2 powr of_int (e - 53) * 2 powr 1 = (2::real) powr (of_int (e - 53) + 1)"
      by (simp only: powr_add)
    then show ?thesis by (simp add: u_def)
  qed
  have ub: "u / 2 \<le> \<bar>x\<bar> / 2 ^ 53 + 1 / 2 ^ 1075"
  proof (cases "- 1022 \<le> \<lfloor>log 2 \<bar>x\<bar>\<rfloor>")
    case True
    then have e: "e = \<lfloor>log 2 \<bar>x\<bar>\<rfloor>" by (simp add: e_def)
    have "of_int e \<le> log 2 \<bar>x\<bar>" by (simp add: e)
    then have "2 powr of_int e \<le> \<bar>x\<bar>"
      using False by (subst powr_le_iff) simp_all
    moreover have "(2::real) powr of_int (e - 53) = 2 powr of_int e / 2 ^ 53"
    proof -
      have "2 powr of_int (e - 53) * 2 powr 53 = (2::real) powr (of_int (e - 53) + 53)"
        by (simp only: powr_add)
      then show ?thesis by (simp add: field_simps)
    qed
    ultimately have "u / 2 \<le> \<bar>x\<bar> / 2 ^ 53"
      by (simp add: half divide_right_mono)
    moreover have "(0::real) \<le> 1 / 2 ^ 1075" by simp
    ultimately show ?thesis by linarith
  next
    case False
    then have "e = - 1022" by (simp add: e_def)
    then have "u / 2 = 2 powr (- 1075)" by (simp add: half)
    also have "\<dots> = 1 / 2 ^ 1075" by (simp add: powr_minus divide_simps)
    finally show ?thesis by simp
  qed
  have "\<bar>y\<bar> \<le> \<bar>x\<bar> + u / 2" using err by linarith
  also have "\<dots> \<le> \<bar>x\<bar> + (\<bar>x\<bar> / 2 ^ 53 + 1 / 2 ^ 1075)" using ub by simp
  also have "\<dots> \<le> 2 ^ 1023 + (2 ^ 1023 / 2 ^ 53 + 1 / 2 ^ 1075)"
    using assms by (intro add_mono divide_right_mono) simp_all
  also have "\<dots> < 2 ^ 1024" by simp
  finally have fin: "\<not> 2 powr 1024 \<le> \<bar>y\<bar>" by simp
  have r: "round_double x = Fin y"
    unfolding round_double_def Let_def e_def [symmetric]
    unfolding u_def [symmetric]
    unfolding y_def [symmetric]
    using False fin by simp
  have "0 \<le> x \<Longrightarrow> 0 \<le> y"
    using u rhe_nonneg [of "x / u"] by (simp add: y_def)
  moreover have "x \<le> 0 \<Longrightarrow> y \<le> 0"
    using u rhe_nonpos [of "x / u"] by (simp add: y_def mult_nonpos_nonneg divide_nonpos_pos)
  ultimately show ?thesis using r err ub by (intro exI [of _ y]) auto
qed

lemma round_double_near_one:
  assumes "1 - 1 / 2 ^ 54 < x" "x \<le> 1"
  shows "round_double x = Fin 1"
proof (cases "x = 1")
  case True
  have "rhe (2 ^ 52) = 2 ^ 52"
    using rhe_of_int [of "2 ^ 52"] by simp
  then have "round_double 1 = Fin 1"
    by (subst round_double_binade [of 0]) (simp_all add: Let_def powr_minus)
  with True show ?thesis by simp
next
  case False
  with assms have x: "x < 1" by simp
  have lo: "1 / 2 \<le> x" using assms(1) by (simp add: field_simps) 
  have b: "round_double x =
     (let u = 2 powr of_int (- 1 - 52); y = of_int (rhe (x / u)) * u
      in if 2 powr 1024 \<le> \<bar>y\<bar> then inf_of_sign x else Fin y)"
    using lo x by (intro round_double_binade) (simp_all add: powr_minus)
  have u: "(2::real) powr of_int (- 1 - 52) = 1 / 2 ^ 53"
    by (simp add: powr_minus divide_simps)
  define m where "m = x * 2 ^ 53"
  have m: "2 ^ 53 - 1 / 2 < m" "m < 2 ^ 53"
    using assms(1) x by (simp_all add: m_def field_simps)
  have fl: "\<lfloor>m\<rfloor> = 2 ^ 53 - 1"
    using m by (intro floor_unique) simp_all
  have "rhe m = 2 ^ 53"
    using m by (simp add: rhe_def Let_def fl)
  then show ?thesis
    unfolding b u Let_def by (simp add: m_def)
qed

lemma round_double_2_53: "round_double (2 ^ 53) = Fin (2 ^ 53)"
proof -
  have "rhe (2 ^ 52) = 2 ^ 52"
    using rhe_of_int [of "2 ^ 52"] by simp
  then show ?thesis
    by (subst round_double_binade [of 53]) (simp_all add: Let_def)
qed

lemma round_double_2_53_1: "round_double (1 + 2 ^ 53) = Fin (2 ^ 53)"
proof -
  have "\<lfloor>(1 + 2 ^ 53) / (2::real)\<rfloor> = 2 ^ 52"
    by (intro floor_unique) simp_all
  then have "rhe ((1 + 2 ^ 53) / 2) = 2 ^ 52"
    by (simp add: rhe_def Let_def)
  then show ?thesis
    by (subst round_double_binade [of 53]) (simp_all add: Let_def)
qed

lemma round_double_0 [simp]: "round_double 0 = Fin 0"
  by (simp add: round_double_def)

lemma round_double_1 [simp]: "round_double 1 = Fin 1"
  using round_double_near_one [of 1] by simp

lemma round_double_below_one:
  assumes "1 / 2 \<le> x" "x < 1" "\<bar>x * 2 ^ 53 - of_int k\<bar> < 1 / 2"
  shows "round_double x = Fin (of_int k / 2 ^ 53)"
proof -
  have b: "round_double x =
     (let u = 2 powr of_int (- 1 - 52); y = of_int (rhe (x / u)) * u
      in if 2 powr 1024 \<le> \<bar>y\<bar> then inf_of_sign x else Fin y)"
    using assms(1,2) by (intro round_double_binade) (simp_all add: powr_minus)
  have u: "(2::real) powr of_int (- 1 - 52) = 1 / 2 ^ 53"
    by (simp add: powr_minus divide_simps)
  have r: "rhe (x * 2 ^ 53) = k" using assms(3) by (rule rhe_near)
  have "0 \<le> x * 2 ^ 53" using assms(1) by simp
  with assms(3) have "\<bar>real_of_int k\<bar> < x * 2 ^ 53 + 1 / 2" by linarith
  also have "\<dots> \<le> 1 * 2 ^ 53 + 1 / 2" using assms(2) by simp
  finally have "\<bar>real_of_int k\<bar> / 2 ^ 53 < 2 powr 1024" by simp
  then have fin: "\<not> 2 powr 1024 \<le> \<bar>real_of_int k * (1 / 2 ^ 53)\<bar>" by simp
  have r': "rhe (x / (1 / 2 ^ 53)) = k" using r by simp
  show ?thesis
    unfolding b u Let_def r' using fin by simp
qed

lemma round_double_c0:
  assumes "1 - 3 / 2 ^ 54 < x" "x < 1 - 1 / 2 ^ 54"
  shows "round_double x = Fin (1 - 1 / 2 ^ 53)"
proof -
  have "2 ^ 53 - 3 / 2 < x * 2 ^ 53" "x * 2 ^ 53 < 2 ^ 53 - 1 / 2"
    using assms by (simp_all add: field_simps)
  then have "\<bar>x * 2 ^ 53 - (2 ^ 53 - 1)\<bar> < 1 / 2" by linarith
  then have "\<bar>x * 2 ^ 53 - of_int (2 ^ 53 - 1)\<bar> < 1 / 2" by simp
  moreover have "1 / 2 \<le> x" "x < 1" using assms by simp_all
  ultimately have "round_double x = Fin (of_int (2 ^ 53 - 1) / 2 ^ 53)"
    by (intro round_double_below_one) 
  then show ?thesis by simp
qed

lemma round_double_c1:
  assumes "1 - 5 / 2 ^ 54 < x" "x < 1 - 3 / 2 ^ 54"
  shows "round_double x = Fin (1 - 1 / 2 ^ 52)"
proof -
  have "2 ^ 53 - 5 / 2 < x * 2 ^ 53" "x * 2 ^ 53 < 2 ^ 53 - 3 / 2"
    using assms by (simp_all add: field_simps)
  then have "\<bar>x * 2 ^ 53 - (2 ^ 53 - 2)\<bar> < 1 / 2" by linarith
  then have "\<bar>x * 2 ^ 53 - of_int (2 ^ 53 - 2)\<bar> < 1 / 2" by simp
  moreover have "1 / 2 \<le> x" "x < 1" using assms by simp_all
  ultimately have "round_double x = Fin (of_int (2 ^ 53 - 2) / 2 ^ 53)"
    by (intro round_double_below_one) 
  then show ?thesis by simp
qed

lemma round_double_pos:
  assumes "1 / 2 ^ 1000 \<le> x" "x \<le> 2 ^ 1000"
  shows "\<exists>y. round_double x = Fin y \<and> x - x / 2 ^ 52 \<le> y \<and> y \<le> x + x / 2 ^ 52"
proof -
  have "(0::real) < 1 / 2 ^ 1000" by simp
  with assms(1) have x: "0 < x" by linarith
  have "x \<le> 2 ^ 1023" using assms(2) by simp
  with x have "\<bar>x\<bar> \<le> 2 ^ 1023" by simp
  from round_double_error [OF this] obtain y where
    y: "round_double x = Fin y" "\<bar>y - x\<bar> \<le> \<bar>x\<bar> / 2 ^ 53 + 1 / 2 ^ 1075" by blast
  have "(1 / 2 ^ 1000) / 2 ^ 53 \<le> x / 2 ^ 53"
    using assms(1) by (rule divide_right_mono) simp
  then have "1 / 2 ^ 1075 \<le> x / 2 ^ 53" by simp
  with y(2) x have "\<bar>y - x\<bar> \<le> x / 2 ^ 53 + x / 2 ^ 53" by simp
  then have "\<bar>y - x\<bar> \<le> x / 2 ^ 52" by simp
  then have "x - x / 2 ^ 52 \<le> y" "y \<le> x + x / 2 ^ 52" by linarith+
  with y(1) show ?thesis by blast
qed

lemma round_double_abs:
  assumes "\<bar>x\<bar> \<le> B" "1 / 2 ^ 1000 \<le> B" "B \<le> 2 ^ 1000"
  shows "\<exists>y. round_double x = Fin y \<and> \<bar>y\<bar> \<le> B + B / 2 ^ 52"
proof -
  have "\<bar>x\<bar> \<le> 2 ^ 1023" using assms(1,3) by simp
  from round_double_error [OF this] obtain y where
    y: "round_double x = Fin y" "\<bar>y - x\<bar> \<le> \<bar>x\<bar> / 2 ^ 53 + 1 / 2 ^ 1075" by blast
  have 1: "\<bar>x\<bar> / 2 ^ 53 \<le> B / 2 ^ 53" using assms(1) by (simp add: divide_right_mono)
  have "(1 / 2 ^ 1000) / 2 ^ 53 \<le> B / 2 ^ 53"
    using assms(2) by (rule divide_right_mono) simp
  then have 2: "1 / 2 ^ 1075 \<le> B / 2 ^ 53" by simp
  have 3: "B / 2 ^ 53 + B / 2 ^ 53 = B / 2 ^ 52" by simp
  from y(2) 1 2 3 assms(1) have "\<bar>y\<bar> \<le> B + B / 2 ^ 52" by linarith
  with y(1) show ?thesis by blast
qed

lemma round_double_finite:
  assumes "\<bar>x\<bar> \<le> 2 ^ 1023"
  shows "\<exists>y. round_double x = Fin y"
  using round_double_error [OF assms] by blast

lemma round_to_not_NaN: "v \<noteq> NaN \<Longrightarrow> round_to v \<noteq> NaN"
  by (cases v) (auto simp: round_double_def Let_def inf_of_sign_def)

text \<open>A number with 53 binary digits and an exponent in range is a double, and so is every rounded number.\<close>

lemma round_double_rep:
  fixes m q :: int
  assumes "\<bar>m\<bar> < 2 ^ 53" "- 1074 \<le> q"
    and "\<bar>of_int m * 2 powr of_int q :: real\<bar> < 2 powr 1024"
  shows "round_double (of_int m * 2 powr of_int q) = Fin (of_int m * 2 powr of_int q)"
proof (cases "m = 0")
  case True
  then show ?thesis by simp
next
  case False
  define y :: real where "y = of_int m * 2 powr of_int q"
  have y0: "y \<noteq> 0" using False by (simp add: y_def)
  define e where "e = max \<lfloor>log 2 \<bar>y\<bar>\<rfloor> (- 1022)"
  have "real_of_int \<bar>m\<bar> < real_of_int (2 ^ 53)" using assms(1) by (simp only: of_int_less_iff)
  then have m: "\<bar>real_of_int m\<bar> < 2 ^ 53" by simp
  have "\<bar>y\<bar> = \<bar>real_of_int m\<bar> * 2 powr of_int q" by (simp add: y_def abs_mult)
  also have "\<dots> < 2 ^ 53 * 2 powr of_int q"
    using m by (intro mult_strict_right_mono) simp_all
  also have "\<dots> = 2 powr of_int (q + 53)" by (simp add: powr_add)
  finally have "log 2 \<bar>y\<bar> < of_int (q + 53)"
    using y0 by (subst log_less_iff) simp_all
  then have "\<lfloor>log 2 \<bar>y\<bar>\<rfloor> < q + 53" by (simp only: floor_less_iff)
  then have e: "e \<le> q + 52" using assms(2) by (simp add: e_def)
  define d where "d = nat (q + 52 - e)"
  have d: "int d = q + 52 - e" using e by (simp add: d_def)
  define u :: real where "u = 2 powr of_int (e - 52)"
  have u0: "0 < u" by (simp add: u_def)
  have pw: "2 powr of_int q = 2 ^ d * u"
  proof -
    have "(2::real) ^ d = 2 powr real d" by (simp add: powr_realpow)
    also have "real d = of_int (q + 52 - e)" using d by (metis of_int_of_nat_eq)
    finally have "2 ^ d * u = 2 powr (of_int (q + 52 - e) + of_int (e - 52))"
      unfolding u_def by (simp only: powr_add)
    then show ?thesis by simp
  qed
  have "y / u = of_int (m * 2 ^ d)" using u0 by (simp add: y_def pw)
  then have r: "rhe (y / u) = m * 2 ^ d" by (simp only: rhe_of_int)
  have yy: "of_int (rhe (y / u)) * u = y" unfolding r by (simp add: y_def pw)
  have fin: "\<not> 2 powr 1024 \<le> \<bar>y\<bar>" using assms(3) by (simp add: y_def)
  have "round_double y = Fin y"
    unfolding round_double_def Let_def e_def [symmetric]
    unfolding u_def [symmetric]
    unfolding yy
    using y0 fin by simp
  then show ?thesis by (simp only: y_def)
qed

lemma round_double_idem:
  assumes "round_double x = Fin y"
  shows "round_double y = Fin y"
proof (cases "x = 0")
  case True
  with assms show ?thesis by (simp add: round_double_def)
next
  case False
  define e where "e = max \<lfloor>log 2 \<bar>x\<bar>\<rfloor> (- 1022)"
  define u :: real where "u = 2 powr of_int (e - 52)"
  define k where "k = rhe (x / u)"
  have u0: "0 < u" by (simp add: u_def)
  have e: "- 1022 \<le> e" by (simp add: e_def)
  have "round_double x = (if 2 powr 1024 \<le> \<bar>of_int k * u\<bar> then inf_of_sign x else Fin (of_int k * u))"
    unfolding round_double_def Let_def e_def [symmetric]
    unfolding u_def [symmetric]
    unfolding k_def [symmetric]
    using False by simp
  with assms have y: "y = of_int k * u" and fin: "\<bar>of_int k * u\<bar> < 2 powr 1024"
    by (auto simp: inf_of_sign_def split: if_splits)
  have "\<lfloor>log 2 \<bar>x\<bar>\<rfloor> \<le> e" by (simp add: e_def)
  then have "log 2 \<bar>x\<bar> < of_int (e + 1)" by linarith
  then have "\<bar>x\<bar> < 2 powr of_int (e + 1)"
    using False by (subst (asm) log_less_iff) simp_all
  also have "2 powr of_int (e + 1) = 2 ^ 53 * u"
  proof -
    have "2 powr 53 * u = (2::real) powr (53 + of_int (e - 52))"
      unfolding u_def by (simp only: powr_add)
    then show ?thesis by (simp add: add.commute)
  qed
  finally have "\<bar>x / u\<bar> < 2 ^ 53" using u0 by (simp add: field_simps)
  moreover have "\<bar>of_int k - x / u\<bar> \<le> 1 / 2" unfolding k_def by (rule rhe_err)
  ultimately have "\<bar>real_of_int k\<bar> < 2 ^ 53 + 1" by linarith
  then have "real_of_int \<bar>k\<bar> < real_of_int (2 ^ 53 + 1)" by simp
  then have "\<bar>k\<bar> < 2 ^ 53 + 1" by (simp only: of_int_less_iff)
  then have k: "\<bar>k\<bar> \<le> 2 ^ 53" by simp
  show ?thesis
  proof (cases "\<bar>k\<bar> = 2 ^ 53")
    case True
    define m where "m = k div 2"
    have "k = 2 ^ 53 \<or> k = - (2 ^ 53)" using True by linarith
    then have m: "k = 2 * m" "\<bar>m\<bar> < 2 ^ 53" by (auto simp: m_def)
    have "2 powr 1 * u = (2::real) powr (1 + of_int (e - 52))"
      unfolding u_def by (simp only: powr_add)
    then have u2: "2 * u = 2 powr of_int (e - 51)" by simp
    have ym: "y = of_int m * 2 powr of_int (e - 51)"
      unfolding u2 [symmetric] by (simp add: y m(1))
    have fin2: "\<bar>of_int m * 2 powr of_int (e - 51) :: real\<bar> < 2 powr 1024"
      unfolding ym [symmetric] y by (rule fin)
    have "round_double (of_int m * 2 powr of_int (e - 51)) = Fin (of_int m * 2 powr of_int (e - 51))"
      using e by (intro round_double_rep [OF m(2) _ fin2]) simp
    then show ?thesis by (simp only: ym)
  next
    case False
    with k have "\<bar>k\<bar> < 2 ^ 53" by simp
    then have "round_double (of_int k * 2 powr of_int (e - 52)) = Fin (of_int k * 2 powr of_int (e - 52))"
      using e by (intro round_double_rep [OF _ _ fin [unfolded u_def]]) simp_all
    then show ?thesis by (simp only: y u_def)
  qed
qed

subsection \<open>Bounds through the rounded operations\<close>

lemma fin_in_Fin [simp]: "fin_in lo hi (Fin y) \<longleftrightarrow> lo \<le> y \<and> y \<le> hi"
  by (simp add: fin_in_def)

lemma fin_inE:
  assumes "fin_in lo hi v"
  obtains y where "v = Fin y" "lo \<le> y" "y \<le> hi"
  using assms by (auto simp: fin_in_def)

lemma fin_in_round:
  assumes "lo \<le> x" "x \<le> hi" "1 / 2 ^ 1000 \<le> lo" "hi \<le> 2 ^ 1000"
    and "a \<le> lo - lo / 2 ^ 52" "hi + hi / 2 ^ 52 \<le> b"
  shows "fin_in a b (round_double x)"
proof -
  have "1 / 2 ^ 1000 \<le> x" "x \<le> 2 ^ 1000" using assms by linarith+
  from round_double_pos [OF this] obtain y where
    y: "round_double x = Fin y" "x - x / 2 ^ 52 \<le> y" "y \<le> x + x / 2 ^ 52" by blast
  have "lo - lo / 2 ^ 52 \<le> x - x / 2 ^ 52" using assms(1) by (simp add: field_simps)
  moreover have "x + x / 2 ^ 52 \<le> hi + hi / 2 ^ 52" using assms(2) by (simp add: field_simps)
  ultimately show ?thesis using y assms(5,6) by simp
qed

lemma mult_bounds:
  fixes a b :: real
  assumes "0 \<le> a1" "a1 \<le> a" "a \<le> a2" "0 \<le> b1" "b1 \<le> b" "b \<le> b2"
  shows "a1 * b1 \<le> a * b" "a * b \<le> a2 * b2"
proof -
  show "a1 * b1 \<le> a * b" using assms by (intro mult_mono) auto
  show "a * b \<le> a2 * b2" using assms by (intro mult_mono) auto
qed

lemma rmul_fin_in:
  assumes "fin_in a1 a2 x" "fin_in b1 b2 y" "0 \<le> a1" "0 \<le> b1"
    and "1 / 2 ^ 1000 \<le> a1 * b1" "a2 * b2 \<le> 2 ^ 1000"
    and "lo \<le> a1 * b1 - a1 * b1 / 2 ^ 52" "a2 * b2 + a2 * b2 / 2 ^ 52 \<le> hi"
  shows "fin_in lo hi (rmul x y)"
proof -
  from assms(1) obtain p where p: "x = Fin p" "a1 \<le> p" "p \<le> a2" by (rule fin_inE)
  from assms(2) obtain q where q: "y = Fin q" "b1 \<le> q" "q \<le> b2" by (rule fin_inE)
  have "a1 * b1 \<le> p * q" "p * q \<le> a2 * b2"
    using mult_bounds [OF assms(3) p(2,3) assms(4) q(2,3)] by simp_all
  then have "fin_in lo hi (round_double (p * q))"
    using assms(5-8) by (rule fin_in_round)
  then show ?thesis by (simp add: rmul_def p q)
qed

lemma rdiv_fin_in:
  assumes "fin_in a1 a2 x" "fin_in b1 b2 y" "0 \<le> a1" "0 < b1"
    and "1 / 2 ^ 1000 \<le> a1 / b2" "a2 / b1 \<le> 2 ^ 1000"
    and "lo \<le> a1 / b2 - a1 / b2 / 2 ^ 52" "a2 / b1 + a2 / b1 / 2 ^ 52 \<le> hi"
  shows "fin_in lo hi (rdiv x y)"
proof -
  from assms(1) obtain p where p: "x = Fin p" "a1 \<le> p" "p \<le> a2" by (rule fin_inE)
  from assms(2) obtain q where q: "y = Fin q" "b1 \<le> q" "q \<le> b2" by (rule fin_inE)
  have q0: "0 < q" using assms(4) q(2) by linarith
  have "a1 / b2 \<le> p / q" using assms(3,4) p q q0 by (intro frac_le) auto
  moreover have "p / q \<le> a2 / b1" using assms(3,4) p q q0 by (intro frac_le) auto
  ultimately have "fin_in lo hi (round_double (p / q))"
    using assms(5-8) by (rule fin_in_round)
  then show ?thesis using q0 by (simp add: rdiv_def p q)
qed

lemma sin_lower:
  fixes x :: real
  assumes "0 \<le> x" "x \<le> 1"
  shows "x / 2 \<le> sin x"
proof -
  have "\<bar>sin x - (\<Sum>m<3. sin_coeff m * x ^ m)\<bar> \<le> inverse (fact 3) * \<bar>x\<bar> ^ 3"
    by (rule Maclaurin_sin_bound)
  then have "\<bar>sin x - x\<bar> \<le> x ^ 3 / 6"
    using assms(1) by (simp add: sin_coeff_def numeral_3_eq_3 fact_numeral divide_simps)
  moreover have "x ^ 3 \<le> x"
  proof -
    have "x * x \<le> 1 * 1" using assms by (intro mult_mono) auto
    then have "x * (x * x) \<le> x * 1" using assms(1) by (intro mult_left_mono) auto
    then show ?thesis by (simp add: power3_eq_cube)
  qed
  ultimately show ?thesis by linarith
qed

lemma sin_lower_tight:
  fixes x :: real
  assumes "0 \<le> x" "x \<le> 1 / 32"
  shows "x - x / 1000 \<le> sin x"
proof -
  have "\<bar>sin x - (\<Sum>m<3. sin_coeff m * x ^ m)\<bar> \<le> inverse (fact 3) * \<bar>x\<bar> ^ 3"
    by (rule Maclaurin_sin_bound)
  then have 1: "\<bar>sin x - x\<bar> \<le> x ^ 3 / 6"
    using assms(1) by (simp add: sin_coeff_def numeral_3_eq_3 fact_numeral divide_simps)
  have "x * x \<le> (1 / 32) * (1 / 32)" using assms by (intro mult_mono) auto
  then have "x * (x * x) \<le> x * ((1 / 32) * (1 / 32))"
    using assms(1) by (intro mult_left_mono) auto
  then have "x ^ 3 \<le> x / 1024" by (simp add: power3_eq_cube)
  with 1 assms(1) show ?thesis by linarith
qed

lemma rsin_fin_in:
  assumes "fin_in a1 a2 x" "0 \<le> a1" "a2 \<le> 1"
    and "1 / 2 ^ 1000 \<le> a1 / 2" "lo \<le> a1 / 2 - a1 / 2 / 2 ^ 52" "a2 + a2 / 2 ^ 52 \<le> hi"
  shows "fin_in lo hi (rsin x)"
proof -
  from assms(1) obtain p where p: "x = Fin p" "a1 \<le> p" "p \<le> a2" by (rule fin_inE)
  have p0: "0 \<le> p" "p \<le> 1" using assms p by linarith+
  have "p / 2 \<le> sin p" using p0 by (rule sin_lower)
  then have "a1 / 2 \<le> sin p" using p(2) by linarith
  moreover have "sin p \<le> a2" using sin_x_le_x [OF p0(1)] p(3) by linarith
  moreover have "a2 \<le> 2 ^ 1000" using assms(3) by simp
  ultimately have "fin_in lo hi (round_double (sin p))"
    using assms(4-6) by (intro fin_in_round [of "a1 / 2" _ a2]) 
  then show ?thesis by (simp add: rsin_def p)
qed

lemma rsqrt_fin_in:
  assumes "fin_in a1 a2 x" "0 \<le> l" "l * l \<le> a1" "a2 \<le> h * h" "0 \<le> h"
    and "1 / 2 ^ 1000 \<le> l" "h \<le> 2 ^ 1000" "lo \<le> l - l / 2 ^ 52" "h + h / 2 ^ 52 \<le> hi"
  shows "fin_in lo hi (rsqrt x)"
proof -
  from assms(1) obtain p where p: "x = Fin p" "a1 \<le> p" "p \<le> a2" by (rule fin_inE)
  have "0 \<le> l * l" using assms(2) by simp
  with assms(3) p(2) have p0: "0 \<le> p" by linarith
  have "sqrt (l * l) \<le> sqrt p" using assms(3) p(2) by (intro real_sqrt_le_mono) linarith
  then have 1: "l \<le> sqrt p" using assms(2) by simp
  have "sqrt p \<le> sqrt (h * h)" using assms(4) p(3) by (intro real_sqrt_le_mono) linarith
  then have 2: "sqrt p \<le> h" using assms(5) by simp
  from 1 2 have "fin_in lo hi (round_double (sqrt p))"
    using assms(6-9) by (rule fin_in_round)
  then show ?thesis using p0 by (simp add: rsqrt_def p)
qed

lemma rasin_fin_in:
  assumes "fin_in a1 a2 x" "0 \<le> a1" "a2 \<le> 1"
    and "1 / 2 ^ 1000 \<le> a1" "lo \<le> a1 - a1 / 2 ^ 52" "3 \<le> hi"
  shows "fin_in lo hi (rasin x)"
proof -
  from assms(1) obtain p where p: "x = Fin p" "a1 \<le> p" "p \<le> a2" by (rule fin_inE)
  have p0: "0 \<le> p" "p \<le> 1" using assms p by linarith+
  have a0: "0 \<le> arcsin p" using p0 by (intro arcsin_nonneg) auto
  have "sin (arcsin p) \<le> arcsin p" using a0 by (rule sin_x_le_x)
  then have "p \<le> arcsin p" using p0 by simp
  then have 1: "a1 \<le> arcsin p" using p(2) by linarith
  have "arcsin p \<le> pi / 2" using p0 by (intro arcsin_ubound) auto
  then have 2: "arcsin p \<le> 2" using pi_less_4 by linarith
  have "(2::real) + 2 / 2 ^ 52 \<le> 3" by simp
  then have "2 + 2 / 2 ^ 52 \<le> hi" using assms(6) by linarith
  with 1 2 have "fin_in lo hi (round_double (arcsin p))"
    using assms(4,5) by (intro fin_in_round [of a1 _ 2]) simp_all
  then show ?thesis using p0 by (simp add: rasin_def p)
qed

lemma rsub_same [simp]: "rsub (Fin x) (Fin x) = Fin 0"
  by (simp add: rsub_def dsub_def)

lemma rops_0 [simp]:
  "rdiv (Fin 0) (Fin 2) = Fin 0" "rsin (Fin 0) = Fin 0" "rcos (Fin 0) = Fin 1"
  "rmul (Fin 0) (Fin x) = Fin 0" "rmul (Fin x) (Fin 0) = Fin 0"
  "rmul (Fin 1) (Fin 1) = Fin 1"
  "radd (Fin 0) (Fin 0) = Fin 0" "rsqrt (Fin 0) = Fin 0" "rasin (Fin 0) = Fin 0"
  "racos (Fin 1) = Fin 0" "rtan (Fin 0) = Fin 0" "ratan (Fin 0) = Fin 0"
  "radd (Fin 0) (Fin 1) = Fin 1"
  by (simp_all add: rdiv_def rsin_def rcos_def rmul_def radd_def rsqrt_def rasin_def
      racos_def rtan_def ratan_def)

lemma radd_2_53:
  "radd (Fin 0) (Fin (2 ^ 53)) = Fin (2 ^ 53)" "radd (Fin 1) (Fin (2 ^ 53)) = Fin (2 ^ 53)"
  using round_double_2_53 round_double_2_53_1 by (simp_all add: radd_def)

lemma ratan_finite:
  assumes "v \<noteq> NaN"
  shows "\<exists>u. ratan v = Fin u"
proof -
  have b: "\<exists>u. round_double a = Fin u" if "\<bar>a\<bar> \<le> 2" for a :: real
  proof -
    have "(2::real) \<le> 2 ^ 1023" by simp
    with that have "\<bar>a\<bar> \<le> 2 ^ 1023" by linarith
    then show ?thesis by (rule round_double_finite)
  qed
  show ?thesis
  proof (cases v)
    case (Fin x)
    have "\<bar>arctan x\<bar> \<le> 2"
      using arctan_lbound [of x] arctan_ubound [of x] pi_less_4 by linarith
    from b [OF this] show ?thesis by (simp add: ratan_def Fin)
  next
    case PInf
    have "\<bar>pi / 2\<bar> \<le> 2" using pi_less_4 pi_gt_zero by simp
    from b [OF this] show ?thesis by (simp add: ratan_def PInf)
  next
    case NInf
    have "\<bar>- (pi / 2)\<bar> \<le> 2" using pi_less_4 pi_gt_zero by simp
    from b [OF this] show ?thesis by (simp add: ratan_def NInf)
  next
    case NaN
    with assms show ?thesis by simp
  qed
qed

lemma rsin_tiny:
  assumes "\<bar>d\<bar> \<le> 1 / 2 ^ 598"
  shows "\<exists>s. rsin (Fin d) = Fin s \<and> \<bar>s\<bar> \<le> 1 / 2 ^ 597"
proof -
  have "\<bar>sin d\<bar> \<le> 1 / 2 ^ 598" using abs_sin_x_le_abs_x [of d] assms by linarith
  from round_double_abs [OF this] obtain s where
    "round_double (sin d) = Fin s" "\<bar>s\<bar> \<le> 1 / 2 ^ 598 + 1 / 2 ^ 598 / 2 ^ 52" by auto
  then show ?thesis by (intro exI [of _ s]) (simp add: rsin_def)
qed

text \<open>Bounds of the cosine by its Taylor polynomials, and of \<open>\<pi>\<close> by the sign of the cosine.\<close>

lemma cos_sum2: "(\<Sum>m<2. cos_coeff m * x ^ m) = 1" for x :: real
  by (simp add: lessThan_Suc eval_nat_numeral cos_coeff_Suc sin_coeff_Suc)

lemma cos_sum4: "(\<Sum>m<4. cos_coeff m * x ^ m) = 1 - x\<^sup>2 / 2" for x :: real
  by (simp add: lessThan_Suc eval_nat_numeral cos_coeff_Suc sin_coeff_Suc)

lemma cos_sum6: "(\<Sum>m<6. cos_coeff m * x ^ m) = 1 - x\<^sup>2 / 2 + x ^ 4 / 24" for x :: real
  by (simp add: lessThan_Suc eval_nat_numeral cos_coeff_Suc sin_coeff_Suc)

lemma cos_lower: "1 - x\<^sup>2 / 2 \<le> cos x" for x :: real
proof -
  obtain t where "cos x = (\<Sum>m<2. cos_coeff m * x ^ m) + cos (t + 1 / 2 * real 2 * pi) / fact 2 * x ^ 2"
    using Maclaurin_cos_expansion [of x 2] by blast
  then have c: "cos x = 1 + cos (t + pi) / 2 * x\<^sup>2"
    unfolding cos_sum2 by simp
  have "- 1 \<le> cos (t + pi)" by (rule cos_ge_minus_one)
  then have "- 1 / 2 * x\<^sup>2 \<le> cos (t + pi) / 2 * x\<^sup>2"
    by (intro mult_right_mono) auto
  with c show ?thesis by linarith
qed

lemma cos_upper4: "cos x \<le> 1 - x\<^sup>2 / 2 + x ^ 4 / 24" for x :: real
proof -
  obtain t where "cos x = (\<Sum>m<4. cos_coeff m * x ^ m) + cos (t + 1 / 2 * real 4 * pi) / fact 4 * x ^ 4"
    using Maclaurin_cos_expansion [of x 4] by blast
  then have c: "cos x = 1 - x\<^sup>2 / 2 + cos (t + 2 * pi) / 24 * x ^ 4"
    unfolding cos_sum4 by (simp add: fact_numeral)
  have "cos (t + 2 * pi) \<le> 1" by (rule cos_le_one)
  then have "cos (t + 2 * pi) / 24 * x ^ 4 \<le> 1 / 24 * x ^ 4"
    by (intro mult_right_mono) auto
  with c show ?thesis by linarith
qed

lemma cos_lower6: "1 - x\<^sup>2 / 2 + x ^ 4 / 24 - x ^ 6 / 720 \<le> cos x" for x :: real
proof -
  obtain t where "cos x = (\<Sum>m<6. cos_coeff m * x ^ m) + cos (t + 1 / 2 * real 6 * pi) / fact 6 * x ^ 6"
    using Maclaurin_cos_expansion [of x 6] by blast
  then have c: "cos x = 1 - x\<^sup>2 / 2 + x ^ 4 / 24 + cos (t + 3 * pi) / 720 * x ^ 6"
    unfolding cos_sum6 by (simp add: fact_numeral)
  have "- 1 \<le> cos (t + 3 * pi)" by (rule cos_ge_minus_one)
  then have "- 1 / 720 * x ^ 6 \<le> cos (t + 3 * pi) / 720 * x ^ 6"
    by (intro mult_right_mono) auto
  with c show ?thesis by linarith
qed

lemma pi_bounds: "3 < pi" "pi < 16 / 5"
proof -
  have "1 - (3 / 2)\<^sup>2 / 2 + (3 / 2) ^ 4 / 24 - (3 / 2) ^ 6 / 720 \<le> cos (3 / 2 :: real)"
    by (rule cos_lower6)
  moreover have "(0::real) < 1 - (3 / 2)\<^sup>2 / 2 + (3 / 2) ^ 4 / 24 - (3 / 2) ^ 6 / 720"
    by (simp add: power_divide)
  ultimately have "0 < cos (3 / 2 :: real)" by linarith
  moreover have "cos (3 / 2) \<le> cos (pi / 2)" if "pi \<le> 3"
    using that pi_ge_two by (intro cos_monotone_0_pi_le) auto
  ultimately show "3 < pi" by (cases "pi \<le> 3") auto
  have "cos (8 / 5 :: real) \<le> 1 - (8 / 5)\<^sup>2 / 2 + (8 / 5) ^ 4 / 24"
    by (rule cos_upper4)
  moreover have "1 - (8 / 5)\<^sup>2 / 2 + (8 / 5) ^ 4 / 24 < (0::real)"
    by (simp add: power_divide)
  ultimately have "cos (8 / 5 :: real) < 0" by linarith
  moreover have "cos (pi / 2) \<le> cos (8 / 5)" if "16 / 5 \<le> pi"
    using that by (intro cos_monotone_0_pi_le) auto
  ultimately show "pi < 16 / 5" by (cases "16 / 5 \<le> pi") auto
qed

lemma rcos_small:
  assumes "\<bar>d\<bar> \<le> 1 / 2 ^ 27"
  shows "rcos (Fin d) = Fin 1"
proof -
  have "\<bar>d\<bar> \<le> \<bar>1 / 2 ^ 27 :: real\<bar>" using assms by simp
  then have "d\<^sup>2 \<le> (1 / 2 ^ 27)\<^sup>2" by (simp only: abs_le_square_iff)
  then have a: "d\<^sup>2 \<le> 1 / 2 ^ 54" by (simp add: power_divide)
  have "(1::real) - 1 / 2 ^ 54 < 1 - 1 / 2 ^ 54 / 2" by simp
  also have "\<dots> \<le> 1 - d\<^sup>2 / 2" using a by simp
  also have "\<dots> \<le> cos d" by (rule cos_lower)
  finally have "1 - 1 / 2 ^ 54 < cos d" .
  then have "round_double (cos d) = Fin 1"
    by (rule round_double_near_one) simp
  then show ?thesis by (simp add: rcos_def)
qed

lemma racos_pred_one: "fin_in (1 / 2 ^ 28) 5 (racos (Fin (1 - 1 / 2 ^ 53)))"
proof -
  define z :: real where "z = 1 - 1 / 2 ^ 53"
  define th :: real where "th = 1 / 2 ^ 27"
  have z: "- 1 \<le> z" "z \<le> 1" by (simp_all add: z_def)
  have "z \<le> 1 - th\<^sup>2 / 2" by (simp add: z_def th_def power_divide)
  also have "\<dots> \<le> cos th" by (rule cos_lower)
  finally have "arccos (cos th) \<le> arccos z"
    using z by (intro arccos_le_arccos) simp_all
  moreover have "0 \<le> th" "th \<le> pi"
    using pi_ge_two by (simp_all add: th_def) 
  ultimately have 1: "th \<le> arccos z" by (simp add: arccos_cos)
  have "arccos z \<le> pi" using z by (intro arccos_ubound) simp_all
  then have 2: "arccos z \<le> 4" using pi_less_4 by linarith
  have "fin_in (1 / 2 ^ 28) 5 (round_double (arccos z))"
    using 1 2 by (intro fin_in_round [of th _ 4]) (simp_all add: th_def)
  then show ?thesis
    using z by (simp add: racos_def z_def del: fin_in_Fin)
qed

subsection \<open>The constants as doubles\<close>

lemma pi_const_r_in: "fin_in (299 / 100) (321 / 100) pi_const_r"
  unfolding pi_const_r_def using pi_bounds
  by (intro fin_in_round [of 3 _ "16 / 5"]) simp_all

lemma toRad_r_in: "fin_in (1 / 61) (1 / 56) toRad_r"
  unfolding toRad_r_def
  by (rule rdiv_fin_in [OF pi_const_r_in, of 180 180]) simp_all

lemma meanR_r_in: "fin_in 6370 6372 meanR_r"
  unfolding meanR_r_def
  by (intro fin_in_round [of 6371 _ "6371 + 1 / 10"]) simp_all

lemma mi2km_r_in: "fin_in (8 / 5) (81 / 50) mi2km_r"
  unfolding mi2km_r_def
  by (intro fin_in_round [of "1609 / 1000" _ "161 / 100"]) simp_all

lemma unit_factor_r_in: "fin_in (1 / 2) 1 (unit_factor_r unit)"
proof (cases unit)
  case SI
  then show ?thesis by (simp add: unit_factor_r_def)
next
  case US
  have "fin_in (1 / 2) 1 (rdiv (Fin 1) mi2km_r)"
    by (rule rdiv_fin_in [OF _ mi2km_r_in, of 1 1]) simp_all
  with US show ?thesis by (simp add: unit_factor_r_def)
qed

lemma Vincenty_f_r_in: "fin_in (1 / 300) (1 / 297) Vincenty_f_r"
proof -
  have "fin_in 298 299 (round_double 298.257223563)"
    by (intro fin_in_round [of "29825 / 100" _ "29826 / 100"]) simp_all
  then show ?thesis
    unfolding Vincenty_f_r_def by (rule rdiv_fin_in [of 1 1, rotated]) simp_all
qed

lemma one_minus_f_in: "fin_in (99 / 100) 1 (rsub (Fin 1) Vincenty_f_r)"
proof -
  obtain f where f: "Vincenty_f_r = Fin f" "1 / 300 \<le> f" "f \<le> 1 / 297"
    using Vincenty_f_r_in by (rule fin_inE)
  have "fin_in (99 / 100) 1 (round_double (1 - f))"
    using f(2,3) by (intro fin_in_round [of "1 - 1 / 297" _ "1 - 1 / 300"]) simp_all
  then show ?thesis by (simp add: rsub_def dsub_def f del: fin_in_Fin)
qed

subsection \<open>Haversine and SLC in double arithmetic\<close>

text \<open>Two points of the equator, from \<open>1 / 2 ^ 100\<close> to 1 degree apart: Haversine is greater than zero.\<close>

lemma Haversine_r_equator:
  assumes "1 / 2 ^ 100 \<le> L" "L \<le> 1"
  shows "fin_in (1 / 2 ^ 120) (2 ^ 20) (Haversine_r (Fin 0) (Fin 0) (Fin 0) (Fin L) unit)"
proof -
  obtain t where t: "toRad_r = Fin t" using toRad_r_in by (rule fin_inE)
  have 1: "fin_in (1 / 2 ^ 101) (9 / 8) (rsub (Fin L) (Fin 0))"
    unfolding rsub_def dsub_def using assms
    by (simp del: fin_in_Fin) (intro fin_in_round [of "1 / 2 ^ 100" _ 1]; simp)
  have 2: "fin_in (1 / 2 ^ 103) (5 / 8) (rdiv (rsub (Fin L) (Fin 0)) (Fin 2))"
    by (rule rdiv_fin_in [OF 1, of 2 2]) simp_all
  have 3: "fin_in (1 / 2 ^ 110) (1 / 64) (rmul (rdiv (rsub (Fin L) (Fin 0)) (Fin 2)) toRad_r)"
    by (rule rmul_fin_in [OF 2 toRad_r_in]) simp_all
  define b0 where "b0 = rsin (rmul (rdiv (rsub (Fin L) (Fin 0)) (Fin 2)) toRad_r)"
  have 4: "fin_in (1 / 2 ^ 112) (1 / 32) b0"
    unfolding b0_def by (rule rsin_fin_in [OF 3]) simp_all
  have one: "fin_in 1 1 (Fin 1)" by simp
  have 5: "fin_in (1 / 2 ^ 113) (1 / 16) (rmul b0 (Fin 1))"
    by (rule rmul_fin_in [OF 4 one]) simp_all
  have 6: "fin_in (1 / 2 ^ 114) (1 / 8) (rmul (rmul b0 (Fin 1)) (Fin 1))"
    by (rule rmul_fin_in [OF 5 one]) simp_all
  define b where "b = rmul b0 (rmul (rmul b0 (Fin 1)) (Fin 1))"
  have 7: "fin_in (1 / 2 ^ 227) (1 / 128) b"
    unfolding b_def by (rule rmul_fin_in [OF 4 6]) simp_all
  then obtain bv where bv: "b = Fin bv" "1 / 2 ^ 227 \<le> bv" "bv \<le> 1 / 128" by (rule fin_inE)
  have 8: "fin_in (1 / 2 ^ 228) (1 / 64) (radd (Fin 0) b)"
    unfolding bv(1) radd_def using bv(2,3)
    by (simp del: fin_in_Fin) (intro fin_in_round [of "1 / 2 ^ 227" _ "1 / 128"]; simp)
  have 9: "fin_in (1 / 2 ^ 115) (1 / 4) (rsqrt (radd (Fin 0) b))"
    by (rule rsqrt_fin_in [OF 8, of "1 / 2 ^ 114" "1 / 8"]) simp_all
  have 10: "fin_in (1 / 2 ^ 116) 3 (rasin (rsqrt (radd (Fin 0) b)))"
    by (rule rasin_fin_in [OF 9]) simp_all
  have two: "fin_in 2 2 (Fin 2)" by simp
  have 11: "fin_in (1 / 2 ^ 116) 7 (rmul (Fin 2) (rasin (rsqrt (radd (Fin 0) b))))"
    by (rule rmul_fin_in [OF two 10]) simp_all
  have 12: "fin_in (1 / 2 ^ 116) 44605
      (rmul (rmul (Fin 2) (rasin (rsqrt (radd (Fin 0) b)))) meanR_r)"
    by (rule rmul_fin_in [OF 11 meanR_r_in]) simp_all
  have 13: "fin_in (1 / 2 ^ 120) (2 ^ 20)
      (rmul (rmul (rmul (Fin 2) (rasin (rsqrt (radd (Fin 0) b)))) meanR_r) (unit_factor_r unit))"
    by (rule rmul_fin_in [OF 12 unit_factor_r_in]) simp_all
  show ?thesis
    using 13 by (simp add: Haversine_r_def Let_def t b_def b0_def del: fin_in_Fin)
qed


text \<open>Twice the same point.\<close>

lemma Haversine_r_same:
  assumes "\<bar>lat\<bar> \<le> 2 ^ 1024"
  shows "Haversine_r (Fin lat) (Fin lon) (Fin lat) (Fin lon) unit = Fin 0"
proof -
  obtain t where t: "toRad_r = Fin t" "1 / 61 \<le> t" "t \<le> 1 / 56"
    using toRad_r_in by (rule fin_inE)
  obtain m where m: "meanR_r = Fin m" using meanR_r_in by (rule fin_inE)
  obtain u where u: "unit_factor_r unit = Fin u" using unit_factor_r_in by (rule fin_inE)
  have "\<bar>lat * t\<bar> = \<bar>lat\<bar> * t" using t(2) by (simp add: abs_mult)
  also have "\<dots> \<le> 2 ^ 1024 * (1 / 56)"
    using assms t(2,3) by (intro mult_mono) auto
  also have "\<dots> \<le> 2 ^ 1023" by simp
  finally obtain p where p: "round_double (lat * t) = Fin p"
    using round_double_finite by blast
  have "(1::real) \<le> 2 ^ 1023" by simp
  with abs_cos_le_one [of p] have "\<bar>cos p\<bar> \<le> 2 ^ 1023" by linarith
  then obtain c where c: "round_double (cos p) = Fin c"
    using round_double_finite by blast
  have phi: "rmul (Fin lat) (Fin t) = Fin p" by (simp add: rmul_def p)
  have cs: "rcos (Fin p) = Fin c" by (simp add: rcos_def c)
  show ?thesis
    by (simp add: Haversine_r_def Let_def t phi cs m u)
qed

lemma SLC_r_same_nonzero:
  "fin_in (1 / 2 ^ 30) (2 ^ 20)
     (SLC_r (Fin (11 / 2 ^ 24)) (Fin 0) (Fin (11 / 2 ^ 24)) (Fin 0) unit)"
proof -
  define lat :: real where "lat = 11 / 2 ^ 24"
  define lo :: real where "lo = 11 / (62 * 2 ^ 24)"
  define hi :: real where "hi = 11 / (55 * 2 ^ 24)"
  define c0 :: real where "c0 = 1 - 1 / 2 ^ 53"
  define c1 :: real where "c1 = 1 - 1 / 2 ^ 52"
  obtain t where t: "toRad_r = Fin t" using toRad_r_in by (rule fin_inE)
  have "fin_in lat lat (Fin lat)" by simp
  then have "fin_in lo hi (rmul (Fin lat) toRad_r)"
    by (rule rmul_fin_in [OF _ toRad_r_in]) (simp_all add: lat_def lo_def hi_def)
  then obtain p where p: "rmul (Fin lat) toRad_r = Fin p" "lo \<le> p" "p \<le> hi"
    by (rule fin_inE)
  have lo0: "0 \<le> lo" by (simp add: lo_def)
  have p0: "0 \<le> p" using lo0 p(2) by linarith
  have p32: "p \<le> 1 / 32" using p(3) by (simp add: hi_def)
  have "lo - lo / 1000 \<le> p - p / 1000" using p(2) by simp
  also have "\<dots> \<le> sin p" using p0 p32 by (rule sin_lower_tight)
  finally have s1: "lo - lo / 1000 \<le> sin p" .
  have s2: "sin p \<le> hi" using sin_x_le_x [OF p0] p(3) by linarith
  have "fin_in (11 / (63 * 2 ^ 24)) (11 / (54 * 2 ^ 24)) (round_double (sin p))"
    using s1 s2 by (rule fin_in_round) (simp_all add: lo_def hi_def)
  then obtain s where s: "rsin (Fin p) = Fin s" "11 / (63 * 2 ^ 24) \<le> s" "s \<le> 11 / (54 * 2 ^ 24)"
    unfolding rsin_def by (auto elim: fin_inE)
  have "fin_in (11 / (63 * 2 ^ 24)) (11 / (54 * 2 ^ 24)) (Fin s)" using s(2,3) by simp
  from rmul_fin_in [OF this this, of "9 / (10 * 2 ^ 53)" "14 / (10 * 2 ^ 53)"]
  have "fin_in (9 / (10 * 2 ^ 53)) (14 / (10 * 2 ^ 53)) (rmul (Fin s) (Fin s))" by simp
  then obtain ss where ss: "rmul (Fin s) (Fin s) = Fin ss" "9 / (10 * 2 ^ 53) \<le> ss"
    "ss \<le> 14 / (10 * 2 ^ 53)" by (rule fin_inE)
  have "p\<^sup>2 \<le> hi\<^sup>2" using p0 p(3) by (intro power_mono) auto
  then have "1 - hi\<^sup>2 / 2 \<le> 1 - p\<^sup>2 / 2" by simp
  also have "\<dots> \<le> cos p" by (rule cos_lower)
  finally have "1 - hi\<^sup>2 / 2 \<le> cos p" .
  moreover have "1 - 3 / 2 ^ 54 < 1 - hi\<^sup>2 / 2" by (simp add: hi_def power_divide)
  ultimately have cl: "1 - 3 / 2 ^ 54 < cos p" by linarith
  have "lo\<^sup>2 \<le> p\<^sup>2" using lo0 p(2) by (intro power_mono) auto
  moreover have "p ^ 4 \<le> hi ^ 4" using p0 p(3) by (intro power_mono) auto
  moreover have "cos p \<le> 1 - p\<^sup>2 / 2 + p ^ 4 / 24" by (rule cos_upper4)
  ultimately have "cos p \<le> 1 - lo\<^sup>2 / 2 + hi ^ 4 / 24" by linarith
  moreover have "1 - lo\<^sup>2 / 2 + hi ^ 4 / 24 < 1 - 1 / 2 ^ 54"
    by (simp add: lo_def hi_def power_divide)
  ultimately have cu: "cos p < 1 - 1 / 2 ^ 54" by linarith
  have c: "rcos (Fin p) = Fin c0"
    unfolding rcos_def c0_def using round_double_c0 [OF cl cu] by simp
  have "round_double (c0 * c0) = Fin (1 - 1 / 2 ^ 52)"
    by (rule round_double_c1) (simp_all add: c0_def)
  then have cc: "rmul (Fin c0) (Fin c0) = Fin c1"
    by (simp add: rmul_def c1_def)
  have "round_double (c1 * 1) = Fin (1 - 1 / 2 ^ 52)"
    by (rule round_double_c1) (simp_all add: c1_def)
  then have cc1: "rmul (Fin c1) (Fin 1) = Fin c1"
    by (simp add: rmul_def c1_def)
  have "round_double (ss + c1) = Fin (1 - 1 / 2 ^ 53)"
    using ss(2,3) by (intro round_double_c0) (simp_all add: c1_def)
  then have sum: "radd (Fin ss) (Fin c1) = Fin c0"
    by (simp add: radd_def c0_def)
  have a: "fin_in (1 / 2 ^ 28) 5 (racos (Fin c0))"
    unfolding c0_def by (rule racos_pred_one)
  have b: "fin_in (1 / 2 ^ 28) 31861 (rmul (racos (Fin c0)) meanR_r)"
    by (rule rmul_fin_in [OF a meanR_r_in]) simp_all
  have d: "fin_in (1 / 2 ^ 30) (2 ^ 20) (rmul (rmul (racos (Fin c0)) meanR_r) (unit_factor_r unit))"
    by (rule rmul_fin_in [OF b unit_factor_r_in]) simp_all
  have "SLC_r (Fin lat) (Fin 0) (Fin lat) (Fin 0) unit
      = rmul (rmul (racos (Fin c0)) meanR_r) (unit_factor_r unit)"
    by (simp add: SLC_r_def Let_def p(1) [unfolded t] s c ss cc t cc1 sum)
  with d show ?thesis by (simp add: lat_def del: fin_in_Fin)
qed

subsection \<open>The Vincenty method in double arithmetic\<close>

declare Vincenty_loop_r.simps [simp del]

lemma loop_r_fst_indep: "fst (Vincenty_loop_r r l i n) = fst (Vincenty_loop_r r l i m)"
proof (induction r l i n arbitrary: m rule: Vincenty_loop_r.induct)
  case (1 r lam0 iterLimit n)
  show ?case
    by (subst Vincenty_loop_r.simps [of _ _ _ n], subst Vincenty_loop_r.simps [of _ _ _ m])
       (auto split: body_exit.splits intro: 1)
qed

lemma loop_r_again:
  "Vincenty_body_r r l = Continue st \<Longrightarrow> \<not> converged_r st \<Longrightarrow> i - 1 > 0
   \<Longrightarrow> Vincenty_loop_r r l i n = Vincenty_loop_r r (lam st) (i - 1) (Suc n)"
  by (subst Vincenty_loop_r.simps) simp

lemma head_r_loop:
  "Vincenty_head_r r l i \<Longrightarrow>
     fst (Vincenty_loop_r r l i n) = fst (Vincenty_loop_r r (Deltalam r) 100 0)"
proof (induction arbitrary: n rule: Vincenty_head_r.induct)
  case first
  show ?case by (rule loop_r_fst_indep)
next
  case (again l i st)
  have "fst (Vincenty_loop_r r (lam st) (i - 1) n)
      = fst (Vincenty_loop_r r (lam st) (i - 1) (Suc 0))"
    by (rule loop_r_fst_indep)
  also have "\<dots> = fst (Vincenty_loop_r r l i 0)"
    using again.hyps by (simp add: loop_r_again)
  also have "\<dots> = fst (Vincenty_loop_r r (Deltalam r) 100 0)"
    by (rule again.IH)
  finally show ?case .
qed

lemma body_r_Return:
  "deq (Vincenty_sinsigma_r r l) (Fin 0) \<Longrightarrow> Vincenty_body_r r l = Return (Fin 0)"
  by (simp add: Vincenty_body_r_def Let_def)

lemma Vincenty_r_from_head:
  assumes "Vincenty_head_r (Vincenty_reduced_r lat1 lon1 lat2 lon2) l i"
  shows "Vincenty_r lat1 lon1 lat2 lon2 unit =
    catch_all (Vincenty_finish_r
      (fst (Vincenty_loop_r (Vincenty_reduced_r lat1 lon1 lat2 lon2) l i n)) unit)"
  using head_r_loop [OF assms, of n] by (simp add: Vincenty_r_def Let_def)

lemma Vincenty_r_return:
  assumes "Vincenty_head_r (Vincenty_reduced_r lat1 lon1 lat2 lon2) l i"
    and "deq (Vincenty_sinsigma_r (Vincenty_reduced_r lat1 lon1 lat2 lon2) l) (Fin 0)"
  shows "Vincenty_loop_r (Vincenty_reduced_r lat1 lon1 lat2 lon2) l i n = (Returned (Fin 0), Suc n)"
    and "Vincenty_r lat1 lon1 lat2 lon2 unit = Fin 0"
proof -
  let ?r = "Vincenty_reduced_r lat1 lon1 lat2 lon2"
  show l: "Vincenty_loop_r ?r l i k = (Returned (Fin 0), Suc k)" for k
    using body_r_Return [OF assms(2)] by (subst Vincenty_loop_r.simps) simp
  show "Vincenty_r lat1 lon1 lat2 lon2 unit = Fin 0"
    using l by (simp add: Vincenty_r_from_head [OF assms(1), of _ 0] Vincenty_finish_r_def)
qed

text \<open>Two points of the equator at most \<open>1 / 2 ^ 600\<close> degrees apart.\<close>

lemma sinsigma_r_equator:
  assumes "\<bar>d\<bar> \<le> 1 / 2 ^ 598"
  shows "Vincenty_sinsigma_r \<lparr>sinU1 = Fin 0, cosU1 = Fin 1, sinU2 = Fin 0, cosU2 = Fin 1,
           Deltalam = dl\<rparr> (Fin d) = Fin 0"
proof -
  from rsin_tiny [OF assms] obtain s where s: "rsin (Fin d) = Fin s" "\<bar>s\<bar> \<le> 1 / 2 ^ 597"
    by blast
  have "\<bar>d\<bar> \<le> 1 / 2 ^ 27" using assms by simp
  then have c: "rcos (Fin d) = Fin 1" by (rule rcos_small)
  from round_double_abs [OF s(2)] obtain s' where
    s': "round_double s = Fin s'" "\<bar>s'\<bar> \<le> 1 / 2 ^ 597 + 1 / 2 ^ 597 / 2 ^ 52" by auto
  have b: "\<bar>s'\<bar> \<le> 1 / 2 ^ 596" using s'(2) by simp
  have "\<bar>s' * s'\<bar> = \<bar>s'\<bar> * \<bar>s'\<bar>" by (simp add: abs_mult)
  also have "\<dots> \<le> (1 / 2 ^ 596) * (1 / 2 ^ 596)" using b by (intro mult_mono) auto
  also have "\<dots> \<le> 2 powr (- 1075)" by (simp add: powr_minus divide_simps)
  finally have z: "round_double (s' * s') = Fin 0" by (rule round_double_underflow)
  show ?thesis
    by (simp add: Vincenty_sinsigma_r_def Let_def s c rmul_def s' z rsub_def dsub_def
        radd_def rsqrt_def)
qed

lemma reduced_r_equator:
  assumes "\<bar>L\<bar> \<le> 1 / 2 ^ 600"
  shows "\<exists>d. Vincenty_reduced_r (Fin 0) (Fin 0) (Fin 0) (Fin L) =
      \<lparr>sinU1 = Fin 0, cosU1 = Fin 1, sinU2 = Fin 0, cosU2 = Fin 1, Deltalam = Fin d\<rparr>
      \<and> \<bar>d\<bar> \<le> 1 / 2 ^ 598"
proof -
  obtain t where t: "toRad_r = Fin t" "1 / 61 \<le> t" "t \<le> 1 / 56"
    using toRad_r_in by (rule fin_inE)
  obtain c where c: "rsub (Fin 1) Vincenty_f_r = Fin c"
    using one_minus_f_in by (rule fin_inE)
  from round_double_abs [OF assms] obtain y1 where
    y1: "round_double L = Fin y1" "\<bar>y1\<bar> \<le> 1 / 2 ^ 600 + 1 / 2 ^ 600 / 2 ^ 52" by auto
  have "\<bar>y1 * t\<bar> = \<bar>y1\<bar> * t" using t(2) by (simp add: abs_mult)
  also have "\<dots> \<le> (1 / 2 ^ 600 + 1 / 2 ^ 600 / 2 ^ 52) * 1"
    using y1(2) t(2,3) by (intro mult_mono) auto
  also have "\<dots> \<le> 1 / 2 ^ 599" by simp
  finally have "\<bar>y1 * t\<bar> \<le> 1 / 2 ^ 599" .
  from round_double_abs [OF this] obtain d where
    d: "round_double (y1 * t) = Fin d" "\<bar>d\<bar> \<le> 1 / 2 ^ 599 + 1 / 2 ^ 599 / 2 ^ 52" by auto
  have dl: "rmul (rsub (Fin L) (Fin 0)) (Fin t) = Fin d"
    by (simp add: rsub_def dsub_def rmul_def y1 d)
  have "\<bar>d\<bar> \<le> 1 / 2 ^ 598" using d(2) by simp
  moreover have "Vincenty_reduced_r (Fin 0) (Fin 0) (Fin 0) (Fin L) =
      \<lparr>sinU1 = Fin 0, cosU1 = Fin 1, sinU2 = Fin 0, cosU2 = Fin 1, Deltalam = Fin d\<rparr>"
    by (simp add: Vincenty_reduced_r_def Let_def t c dl)
  ultimately show ?thesis by blast
qed

lemma Vincenty_r_equator_tiny:
  assumes "\<bar>L\<bar> \<le> 1 / 2 ^ 600"
  shows "deq (Vincenty_sinsigma_r (Vincenty_reduced_r (Fin 0) (Fin 0) (Fin 0) (Fin L))
            (Deltalam (Vincenty_reduced_r (Fin 0) (Fin 0) (Fin 0) (Fin L)))) (Fin 0)"
    and "Vincenty_r (Fin 0) (Fin 0) (Fin 0) (Fin L) unit = Fin 0"
proof -
  let ?r = "Vincenty_reduced_r (Fin 0) (Fin 0) (Fin 0) (Fin L)"
  from reduced_r_equator [OF assms] obtain d where
    r: "?r = \<lparr>sinU1 = Fin 0, cosU1 = Fin 1, sinU2 = Fin 0, cosU2 = Fin 1, Deltalam = Fin d\<rparr>"
    and d: "\<bar>d\<bar> \<le> 1 / 2 ^ 598" by blast
  show z: "deq (Vincenty_sinsigma_r ?r (Deltalam ?r)) (Fin 0)"
    unfolding r using sinsigma_r_equator [OF d] by simp
  have "Vincenty_head_r ?r (Deltalam ?r) 100" by (rule Vincenty_head_r.first)
  from Vincenty_r_return(2) [OF this z] show "Vincenty_r (Fin 0) (Fin 0) (Fin 0) (Fin L) unit = Fin 0" .
qed

text \<open>Twice the same point.\<close>

lemma reduced_latitude_r_finite:
  "\<exists>u. ratan (rmul (rsub (Fin 1) Vincenty_f_r) (rtan (Fin p))) = Fin u"
proof -
  obtain c where c: "rsub (Fin 1) Vincenty_f_r = Fin c" "99 / 100 \<le> c"
    using one_minus_f_in by (rule fin_inE)
  have c0: "c \<noteq> 0" using c(2) by simp
  have "rtan (Fin p) \<noteq> NaN"
    unfolding rtan_def by (intro round_to_not_NaN) (simp add: inf_of_sign_def)
  then have "dmul (Fin c) (rtan (Fin p)) \<noteq> NaN"
    using c0 by (cases "rtan (Fin p)") (simp_all add: inf_of_sign_def)
  then have "rmul (Fin c) (rtan (Fin p)) \<noteq> NaN"
    unfolding rmul_def by (rule round_to_not_NaN)
  then show ?thesis unfolding c(1) by (rule ratan_finite)
qed

lemma sinsigma_r_same:
  "\<exists>s c. r = \<lparr>sinU1 = Fin s, cosU1 = Fin c, sinU2 = Fin s, cosU2 = Fin c, Deltalam = Fin 0\<rparr>
     \<and> \<bar>s\<bar> \<le> 2 \<and> \<bar>c\<bar> \<le> 2
   \<Longrightarrow> Vincenty_sinsigma_r r (Fin 0) = Fin 0"
proof -
  assume "\<exists>s c. r = \<lparr>sinU1 = Fin s, cosU1 = Fin c, sinU2 = Fin s, cosU2 = Fin c, Deltalam = Fin 0\<rparr>
     \<and> \<bar>s\<bar> \<le> 2 \<and> \<bar>c\<bar> \<le> 2"
  then obtain s c where
    r: "r = \<lparr>sinU1 = Fin s, cosU1 = Fin c, sinU2 = Fin s, cosU2 = Fin c, Deltalam = Fin 0\<rparr>"
    and s: "\<bar>s\<bar> \<le> 2" and c: "\<bar>c\<bar> \<le> 2" by blast
  have "\<bar>c * s\<bar> = \<bar>c\<bar> * \<bar>s\<bar>" by (simp add: abs_mult)
  also have "\<dots> \<le> 2 * 2" using s c by (intro mult_mono) auto
  also have "\<dots> \<le> (2::real) ^ 1023" by simp
  finally obtain a where a: "round_double (c * s) = Fin a"
    using round_double_finite by blast
  then have a2: "round_double (s * c) = Fin a" by (simp add: mult.commute)
  have a': "round_double a = Fin a" using a by (rule round_double_idem)
  show ?thesis
    by (simp add: r Vincenty_sinsigma_r_def Let_def rmul_def a a2 a' rsub_def dsub_def
        radd_def rsqrt_def)
qed

lemma Vincenty_r_same_sine:
  assumes "\<bar>lat\<bar> \<le> 2 ^ 1024"
  shows "deq (Vincenty_sinsigma_r (Vincenty_reduced_r (Fin lat) (Fin lon) (Fin lat) (Fin lon))
              (Deltalam (Vincenty_reduced_r (Fin lat) (Fin lon) (Fin lat) (Fin lon)))) (Fin 0)"
proof -
  let ?r = "Vincenty_reduced_r (Fin lat) (Fin lon) (Fin lat) (Fin lon)"
  obtain t where t: "toRad_r = Fin t" "1 / 61 \<le> t" "t \<le> 1 / 56"
    using toRad_r_in by (rule fin_inE)
  have "\<bar>lat * t\<bar> = \<bar>lat\<bar> * t" using t(2) by (simp add: abs_mult)
  also have "\<dots> \<le> 2 ^ 1024 * (1 / 56)"
    using assms t(2,3) by (intro mult_mono) auto
  also have "\<dots> \<le> 2 ^ 1023" by simp
  finally obtain p where p: "round_double (lat * t) = Fin p"
    using round_double_finite by blast
  have phi: "rmul (Fin lat) (Fin t) = Fin p" by (simp add: rmul_def p)
  obtain u where u: "ratan (rmul (rsub (Fin 1) Vincenty_f_r) (rtan (Fin p))) = Fin u"
    using reduced_latitude_r_finite by blast
  have "\<bar>sin u\<bar> \<le> 1" by simp
  from round_double_abs [OF this] obtain s where
    s: "round_double (sin u) = Fin s" "\<bar>s\<bar> \<le> 1 + 1 / 2 ^ 52" by auto
  have "\<bar>cos u\<bar> \<le> 1" by simp
  from round_double_abs [OF this] obtain c where
    c: "round_double (cos u) = Fin c" "\<bar>c\<bar> \<le> 1 + 1 / 2 ^ 52" by auto
  have r: "?r = \<lparr>sinU1 = Fin s, cosU1 = Fin c, sinU2 = Fin s, cosU2 = Fin c, Deltalam = Fin 0\<rparr>"
    by (simp add: Vincenty_reduced_r_def Let_def t phi u rsin_def rcos_def s c)
  have "\<bar>s\<bar> \<le> 2" "\<bar>c\<bar> \<le> 2" using s(2) c(2) by simp_all
  with r have "Vincenty_sinsigma_r ?r (Fin 0) = Fin 0"
    by (intro sinsigma_r_same) blast
  then show ?thesis by (simp add: r)
qed

lemma Vincenty_r_same:
  assumes "\<bar>lat\<bar> \<le> 2 ^ 1024"
  shows "Vincenty_r (Fin lat) (Fin lon) (Fin lat) (Fin lon) unit = Fin 0"
  using Vincenty_r_return(2) [OF Vincenty_head_r.first Vincenty_r_same_sine [OF assms]] .

subsection \<open>Shifting both longitudes in double arithmetic\<close>

lemma rsub_shift: "rsub (Fin (x + d)) (Fin (y + d)) = rsub (Fin x) (Fin y)"
  by (simp add: rsub_def dsub_def)

lemma Haversine_r_shift:
  "Haversine_r lat1 (Fin (lon1 + d)) lat2 (Fin (lon2 + d)) unit
   = Haversine_r lat1 (Fin lon1) lat2 (Fin lon2) unit"
  by (simp only: Haversine_r_def rsub_shift)

lemma SLC_r_shift:
  "SLC_r lat1 (Fin (lon1 + d)) lat2 (Fin (lon2 + d)) unit
   = SLC_r lat1 (Fin lon1) lat2 (Fin lon2) unit"
  by (simp only: SLC_r_def rsub_shift)

lemma Vincenty_r_shift:
  "Vincenty_r lat1 (Fin (lon1 + d)) lat2 (Fin (lon2 + d)) unit
   = Vincenty_r lat1 (Fin lon1) lat2 (Fin lon2) unit"
  by (simp only: Vincenty_r_def Vincenty_reduced_r_def rsub_shift)

section \<open>The claims\<close>

text \<open>
  Claim C1. The claim fails at arguments that are not numbers. When a latitude is a NaN
  or an infinity, \<open>Haversine\<close> and \<open>SLC\<close> return a NaN, not -1, in exact and in double
  arithmetic alike: no function of \<^verbatim>\<open>cmath\<close> throws, so their handler
  \<^verbatim>\<open>catch (...) { return -1; }\<close> never runs and the NaN goes through every operation
  to the \<^verbatim>\<open>return\<close>. \<open>Vincenty\<close> returns -1 at the same arguments, by the throw after
  its loop.
\<close>

theorem not_a_number_results:
  "Haversine NaN (Fin 0) (Fin 0) (Fin 0) SI = NaN
   \<and> SLC NaN (Fin 0) (Fin 0) (Fin 0) SI = NaN
   \<and> Haversine PInf (Fin 0) (Fin 0) (Fin 0) SI = NaN
   \<and> SLC PInf (Fin 0) (Fin 0) (Fin 0) SI = NaN
   \<and> Haversine_r NaN (Fin 0) (Fin 0) (Fin 0) SI = NaN
   \<and> SLC_r NaN (Fin 0) (Fin 0) (Fin 0) SI = NaN
   \<and> Haversine_r PInf (Fin 0) (Fin 0) (Fin 0) SI = NaN
   \<and> SLC_r PInf (Fin 0) (Fin 0) (Fin 0) SI = NaN
   \<and> Vincenty NaN (Fin 0) (Fin 0) (Fin 0) SI = Fin (- 1)"
proof -
  have n: "Haversine NaN (Fin 0) (Fin 0) (Fin 0) SI = NaN"
    "SLC NaN (Fin 0) (Fin 0) (Fin 0) SI = NaN"
    "Haversine PInf (Fin 0) (Fin 0) (Fin 0) SI = NaN"
    "SLC PInf (Fin 0) (Fin 0) (Fin 0) SI = NaN"
    by (simp_all add: Haversine_def SLC_def Let_def toRad_Fin dsub_def meanR_def
        unit_factor_def inf_of_sign_def)
  obtain t where t: "toRad_r = Fin t" "1 / 61 \<le> t" using toRad_r_in by (rule fin_inE)
  obtain m where m: "meanR_r = Fin m" using meanR_r_in by (rule fin_inE)
  have t0: "t \<noteq> 0" using t(2) by auto
  have "rmul PInf (Fin t) = PInf \<or> rmul PInf (Fin t) = NInf"
    using t0 by (simp add: rmul_def inf_of_sign_def)
  then have inf: "rsin (rmul PInf (Fin t)) = NaN" "rcos (rmul PInf (Fin t)) = NaN"
    "rsin (rdiv (rsub (Fin 0) (rmul PInf (Fin t))) (Fin 2)) = NaN"
    by (auto simp add: rsin_def rcos_def rsub_def dsub_def rdiv_def)
  have r: "Haversine_r NaN (Fin 0) (Fin 0) (Fin 0) SI = NaN"
    "SLC_r NaN (Fin 0) (Fin 0) (Fin 0) SI = NaN"
    "Haversine_r PInf (Fin 0) (Fin 0) (Fin 0) SI = NaN"
    "SLC_r PInf (Fin 0) (Fin 0) (Fin 0) SI = NaN"
    by (simp_all add: Haversine_r_def SLC_r_def Let_def t m inf,
        simp_all add: rmul_def rsub_def dsub_def rdiv_def rsin_def rcos_def radd_def
          rsqrt_def rasin_def racos_def unit_factor_r_def)
  let ?n = "Vincenty_reduced NaN (Fin 0) (Fin 0) (Fin 0)"
  have "cosU1 ?n = NaN"
    by (simp add: Vincenty_reduced_def Let_def)
  then have "\<forall>l i. Vincenty_head ?n l i \<longrightarrow>
      (\<exists>st. Vincenty_body ?n l = Continue st \<and> \<not> converged st)"
    using body_NaN by blast
  from loop_exhaust [OF this Vincenty_head.first, of 0] obtain st where
    "Vincenty_loop ?n (Deltalam ?n) 100 0 = (Left st 0, 100)" by auto
  then have "Vincenty NaN (Fin 0) (Fin 0) (Fin 0) SI = Fin (- 1)"
    by (simp add: Vincenty_def Let_def Vincenty_finish_def)
  with n r show ?thesis by simp
qed

text \<open>
  Claim C2. If in a call no run of the loop body returns and none meets the test of
  convergence, the body runs 100 times and the method returns -1. If the loop comes to
  its \<^verbatim>\<open>do\<close> and the run that starts there does not return and meets the test of
  convergence, the loop ends in that run, and the method returns the distance
  \<^verbatim>\<open>b * A * (\<sigma> - \<Delta>\<sigma>) / 1000.0\<close> of the variables of that run, times the factor of
  the unit: a number greater than zero, so not the sentinel.
\<close>

theorem Vincenty_convergence:
  "((\<forall>l i. Vincenty_head (Vincenty_reduced lat1 lon1 lat2 lon2) l i \<longrightarrow>
        (\<exists>st. Vincenty_body (Vincenty_reduced lat1 lon1 lat2 lon2) l = Continue st
              \<and> \<not> converged st))
     \<longrightarrow> Vincenty lat1 lon1 lat2 lon2 unit = Fin (- 1)
         \<and> Vincenty_iterations lat1 lon1 lat2 lon2 = 100)
   \<and> (\<forall>l i st. Vincenty_head (Vincenty_reduced lat1 lon1 lat2 lon2) l i
          \<and> Vincenty_body (Vincenty_reduced lat1 lon1 lat2 lon2) l = Continue st
          \<and> converged st
     \<longrightarrow> (\<forall>n. Vincenty_loop (Vincenty_reduced lat1 lon1 lat2 lon2) l i n = (Left st i, Suc n))
         \<and> Vincenty lat1 lon1 lat2 lon2 unit =
             dmul (ddiv (dmul (dmul Vincenty_b (cap_A st)) (dsub (sigma st) (Deltasigma st)))
                        (Fin 1000.0))
                  (unit_factor unit)
         \<and> (\<exists>x. Vincenty lat1 lon1 lat2 lon2 unit = Fin x \<and> 0 < x))"
proof (intro conjI impI allI)
  let ?r = "Vincenty_reduced lat1 lon1 lat2 lon2"
  assume never: "\<forall>l i. Vincenty_head ?r l i \<longrightarrow>
    (\<exists>st. Vincenty_body ?r l = Continue st \<and> \<not> converged st)"
  have h: "Vincenty_head ?r (Deltalam ?r) 100" by (rule Vincenty_head.first)
  from loop_exhaust [OF never h, of 0] obtain st where
    l: "Vincenty_loop ?r (Deltalam ?r) 100 0 = (Left st 0, 100)" by auto
  show "Vincenty lat1 lon1 lat2 lon2 unit = Fin (- 1)"
    by (simp add: Vincenty_def Let_def l Vincenty_finish_def)
  show "Vincenty_iterations lat1 lon1 lat2 lon2 = 100"
    by (simp add: Vincenty_iterations_def Let_def l)
next
  let ?r = "Vincenty_reduced lat1 lon1 lat2 lon2"
  fix l i st
  assume a: "Vincenty_head ?r l i \<and> Vincenty_body ?r l = Continue st \<and> converged st"
  then have h: "Vincenty_head ?r l i" and b: "Vincenty_body ?r l = Continue st"
    and c: "converged st" by simp_all
  have i: "i \<noteq> 0" using head_range [OF h] by simp
  have loop: "Vincenty_loop ?r l i k = (Left st i, Suc k)" for k
    using b c by (rule loop_converged)
  have v: "Vincenty lat1 lon1 lat2 lon2 unit = catch_all (Vincenty_finish (Left st i) unit)"
    using Vincenty_from_head [OF h, of unit 0] by (simp add: loop)
  {
    fix n
    show "Vincenty_loop ?r l i n = (Left st i, Suc n)" by (rule loop)
  }
  show "Vincenty lat1 lon1 lat2 lon2 unit =
      dmul (ddiv (dmul (dmul Vincenty_b (cap_A st)) (dsub (sigma st) (Deltasigma st)))
                 (Fin 1000.0)) (unit_factor unit)"
    using i by (simp add: v Vincenty_finish_def)
  from converged_numbers [OF b c] obtain p q dl x where
    r: "?r = fin_reduced p q dl" and l: "l = Fin x" by blast
  from b have nz: "fin_sinsigma p q x \<noteq> 0" and st: "st = fin_locals p q dl x"
    unfolding r l body_Fin by (auto split: if_splits)
  from fin_finish_positive [OF nz i, of dl unit] obtain y where
    "Vincenty_finish (Left st i) unit = Inr (Fin y)" "0 < y"
    unfolding st by blast
  then show "\<exists>x. Vincenty lat1 lon1 lat2 lon2 unit = Fin x \<and> 0 < x"
    by (simp add: v)
qed

theorem Vincenty_convergence_witness:
  "Vincenty NaN (Fin 0) (Fin 0) (Fin 0) SI = Fin (- 1)
   \<and> Vincenty_iterations NaN (Fin 0) (Fin 0) (Fin 0) = 100
   \<and> Vincenty_head (Vincenty_reduced (Fin 0) (Fin 0) (Fin 45) (Fin 0)) (Fin 0) 100
   \<and> Vincenty_body (Vincenty_reduced (Fin 0) (Fin 0) (Fin 45) (Fin 0)) (Fin 0)
       = Continue (fin_locals 0 (reduced_lat 45) 0 0)
   \<and> converged (fin_locals 0 (reduced_lat 45) 0 0)
   \<and> Vincenty_loop (Vincenty_reduced (Fin 0) (Fin 0) (Fin 45) (Fin 0)) (Fin 0) 100 0
       = (Left (fin_locals 0 (reduced_lat 45) 0 0) 100, Suc 0)
   \<and> (\<exists>x. Vincenty (Fin 0) (Fin 0) (Fin 45) (Fin 0) SI = Fin x \<and> 0 < x)"
proof -
  let ?n = "Vincenty_reduced NaN (Fin 0) (Fin 0) (Fin 0)"
  have "cosU1 ?n = NaN"
    by (simp add: Vincenty_reduced_def Let_def)
  then have never: "\<forall>l i. Vincenty_head ?n l i \<longrightarrow>
      (\<exists>st. Vincenty_body ?n l = Continue st \<and> \<not> converged st)"
    using body_NaN by blast
  let ?r = "Vincenty_reduced (Fin 0) (Fin 0) (Fin 45) (Fin 0)"
  let ?st = "fin_locals 0 (reduced_lat 45) 0 0"
  have r: "?r = fin_reduced 0 (reduced_lat 45) 0"
    by (simp add: reduced_Fin reduced_lat_0)
  have "Vincenty_head ?r (Deltalam ?r) 100" by (rule Vincenty_head.first)
  then have h: "Vincenty_head ?r (Fin 0) 100" by (simp add: r)
  have nz: "fin_sinsigma 0 (reduced_lat 45) 0 \<noteq> 0"
    using reduced_lat_45_sin by (simp add: fin_sinsigma_def)
  have b: "Vincenty_body ?r (Fin 0) = Continue ?st"
    using nz by (simp add: r body_Fin)
  have c: "converged ?st" using nz by (rule same_meridian)
  from Vincenty_convergence [of NaN "Fin 0" "Fin 0" "Fin 0" SI] never
  have 1: "Vincenty NaN (Fin 0) (Fin 0) (Fin 0) SI = Fin (- 1)
      \<and> Vincenty_iterations NaN (Fin 0) (Fin 0) (Fin 0) = 100" by blast
  from Vincenty_convergence [of "Fin 0" "Fin 0" "Fin 45" "Fin 0" SI] h b c
  have 2: "Vincenty_loop ?r (Fin 0) 100 0 = (Left ?st 100, Suc 0)
      \<and> (\<exists>x. Vincenty (Fin 0) (Fin 0) (Fin 45) (Fin 0) SI = Fin x \<and> 0 < x)" by blast
  from 1 2 h b c show ?thesis by simp
qed

text \<open>
  Claim C3. For coordinates in degrees, \<open>Haversine\<close> returns
  \<open>2 \<cdot> asin (\<surd>(sin\<^sup>2 (\<Delta>\<phi>/2) + cos \<phi>1 \<cdot> cos \<phi>2 \<cdot> sin\<^sup>2 (\<Delta>\<lambda>/2))) \<cdot> 6371.009\<close>
  kilometres, with \<open>\<phi>1\<close>, \<open>\<phi>2\<close> and \<open>\<Delta>\<lambda>\<close> the latitudes and the difference of the
  longitudes in radians, and that value times \<open>1 / 1.609344\<close> when the unit is US.
  The argument of the arc sine is always between 0 and 1, so the value is a number.
\<close>

theorem Haversine_formula:
  "Haversine (Fin lat1) (Fin lon1) (Fin lat2) (Fin lon2) unit =
     (let phi1 = lat1 * (pi / 180); phi2 = lat2 * (pi / 180);
          Deltalam = (lon2 - lon1) * (pi / 180);
          km = 2 * arcsin (sqrt ((sin ((phi2 - phi1) / 2))\<^sup>2
                 + cos phi1 * cos phi2 * (sin (Deltalam / 2))\<^sup>2)) * 6371.009
      in Fin (if unit = US then km * (1 / 1.609344) else km))"
  by (rule Haversine_Fin)

text \<open>
  Claim C4. In double arithmetic: when the loop is at its \<^verbatim>\<open>do\<close> in some iteration
  and the sine of \<open>\<sigma>\<close> computed there compares equal to zero, the loop ends in that run of
  the body with the value 0, nothing more is computed, and the method returns 0 in
  kilometres and in miles. That the two points are then coincident does not follow
  (\<open>Vincenty_zero_sine_distinct\<close>).
\<close>

theorem Vincenty_zero_sine:
  assumes "Vincenty_head_r (Vincenty_reduced_r lat1 lon1 lat2 lon2) l i"
    and "deq (Vincenty_sinsigma_r (Vincenty_reduced_r lat1 lon1 lat2 lon2) l) (Fin 0)"
  shows "Vincenty_loop_r (Vincenty_reduced_r lat1 lon1 lat2 lon2) l i n
      = (Returned (Fin 0), Suc n)
    \<and> Vincenty_r lat1 lon1 lat2 lon2 SI = Fin 0 \<and> Vincenty_r lat1 lon1 lat2 lon2 US = Fin 0"
  using Vincenty_r_return [OF assms] by simp

theorem Vincenty_zero_sine_witness:
  "Vincenty_head_r (Vincenty_reduced_r (Fin 45) (Fin 7) (Fin 45) (Fin 7))
     (Deltalam (Vincenty_reduced_r (Fin 45) (Fin 7) (Fin 45) (Fin 7))) 100
   \<and> deq (Vincenty_sinsigma_r (Vincenty_reduced_r (Fin 45) (Fin 7) (Fin 45) (Fin 7))
            (Deltalam (Vincenty_reduced_r (Fin 45) (Fin 7) (Fin 45) (Fin 7)))) (Fin 0)
   \<and> Vincenty_loop_r (Vincenty_reduced_r (Fin 45) (Fin 7) (Fin 45) (Fin 7))
        (Deltalam (Vincenty_reduced_r (Fin 45) (Fin 7) (Fin 45) (Fin 7))) 100 0
      = (Returned (Fin 0), Suc 0)
   \<and> Vincenty_r (Fin 45) (Fin 7) (Fin 45) (Fin 7) SI = Fin 0
   \<and> Vincenty_r (Fin 45) (Fin 7) (Fin 45) (Fin 7) US = Fin 0"
proof -
  let ?r = "Vincenty_reduced_r (Fin 45) (Fin 7) (Fin 45) (Fin 7)"
  have h: "Vincenty_head_r ?r (Deltalam ?r) 100" by (rule Vincenty_head_r.first)
  have z: "deq (Vincenty_sinsigma_r ?r (Deltalam ?r)) (Fin 0)"
    by (rule Vincenty_r_same_sine) simp
  show ?thesis
    using h z Vincenty_zero_sine [OF h z, of 0] by simp
qed

text \<open>
  The points (0, 0) and (0, \<open>1 / 2 ^ 600\<close>) differ in longitude. In double arithmetic the
  sine of \<open>\<sigma>\<close> computed in the first run of the loop body is zero all the same: the
  difference of the longitudes in radians is below \<open>1 / 2 ^ 598\<close>, and the square of its
  sine underflows to zero. The method returns 0 for two points that are not coincident.
\<close>

theorem Vincenty_zero_sine_distinct:
  "Fin 0 \<noteq> Fin (1 / 2 ^ 600)
   \<and> Vincenty_head_r (Vincenty_reduced_r (Fin 0) (Fin 0) (Fin 0) (Fin (1 / 2 ^ 600)))
       (Deltalam (Vincenty_reduced_r (Fin 0) (Fin 0) (Fin 0) (Fin (1 / 2 ^ 600)))) 100
   \<and> deq (Vincenty_sinsigma_r (Vincenty_reduced_r (Fin 0) (Fin 0) (Fin 0) (Fin (1 / 2 ^ 600)))
            (Deltalam (Vincenty_reduced_r (Fin 0) (Fin 0) (Fin 0) (Fin (1 / 2 ^ 600))))) (Fin 0)
   \<and> Vincenty_r (Fin 0) (Fin 0) (Fin 0) (Fin (1 / 2 ^ 600)) SI = Fin 0"
proof -
  have "\<bar>1 / 2 ^ 600 :: real\<bar> \<le> 1 / 2 ^ 600" by simp
  from Vincenty_r_equator_tiny [OF this] Vincenty_head_r.first show ?thesis by simp
qed

text \<open>
  Claim C5. The loop of \<open>Vincenty_loop\<close> is a total function: its recursion is well
  founded on \<^verbatim>\<open>iterLimit\<close>, so every call of \<open>Vincenty\<close> returns. In every
  call, whatever the arguments (numbers or not) the body of the loop runs at least once
  and at most 100 times.
\<close>

theorem Vincenty_bounded:
  "1 \<le> Vincenty_iterations lat1 lon1 lat2 lon2 \<and> Vincenty_iterations lat1 lon1 lat2 lon2 \<le> 100"
  using loop_count [of "Vincenty_reduced lat1 lon1 lat2 lon2" _ 100 0]
    loop_count_pos [of "Vincenty_reduced lat1 lon1 lat2 lon2" _ 100 0]
  by (simp add: Vincenty_iterations_def Let_def)

text \<open>
  Claim C6. In every run of the loop body that goes on after the test of \<open>sin \<sigma>\<close>: when
  \<open>cos\<^sup>2 \<alpha>\<close> compares equal to zero, \<open>cos 2\<sigma>M\<close> is set to 0 and nothing is divided; the
  division by \<open>cos\<^sup>2 \<alpha>\<close> is made only when it compares unequal to zero. Either way the run
  is an ordinary one: the loop goes on to its test of convergence and its countdown.
\<close>

theorem Vincenty_division_guarded:
  "Vincenty_body r l = Continue st \<Longrightarrow>
     (deq (cos2alpha st) (Fin 0.0) \<longrightarrow> cos2sigmaM st = Fin 0.0)
   \<and> (dne (cos2alpha st) (Fin 0.0) \<longrightarrow>
        cos2sigmaM st = dsub (cossigma st)
          (ddiv (dmul (dmul (Fin 2.0) (sinU1 r)) (sinU2 r)) (cos2alpha st)))
   \<and> Vincenty_loop r l i n =
       (if converged st then (Left st i, Suc n)
        else if i - 1 > 0 then Vincenty_loop r (lam st) (i - 1) (Suc n)
        else (Left st (i - 1), Suc n))"
proof (intro conjI)
  assume b: "Vincenty_body r l = Continue st"
  then show "deq (cos2alpha st) (Fin 0.0) \<longrightarrow> cos2sigmaM st = Fin 0.0"
    by (auto simp add: Vincenty_body_def Let_def dne_def split: if_splits)
  from b show "dne (cos2alpha st) (Fin 0.0) \<longrightarrow>
        cos2sigmaM st = dsub (cossigma st)
          (ddiv (dmul (dmul (Fin 2.0) (sinU1 r)) (sinU2 r)) (cos2alpha st))"
    by (auto simp add: Vincenty_body_def Let_def split: if_splits)
  from b show "Vincenty_loop r l i n =
       (if converged st then (Left st i, Suc n)
        else if i - 1 > 0 then Vincenty_loop r (lam st) (i - 1) (Suc n)
        else (Left st (i - 1), Suc n))"
    by (subst Vincenty_loop.simps) simp
qed

theorem Vincenty_division_guarded_witness:
  "Vincenty_body (Vincenty_reduced (Fin 0) (Fin 0) (Fin 0) (Fin 90)) (Fin (pi / 2))
     = Continue (fin_locals 0 0 (pi / 2) (pi / 2))
   \<and> deq (cos2alpha (fin_locals 0 0 (pi / 2) (pi / 2))) (Fin 0)
   \<and> cos2sigmaM (fin_locals 0 0 (pi / 2) (pi / 2)) = Fin 0
   \<and> Vincenty_body (Vincenty_reduced (Fin 0) (Fin 0) (Fin 45) (Fin 0)) (Fin 0)
       = Continue (fin_locals 0 (reduced_lat 45) 0 0)
   \<and> dne (cos2alpha (fin_locals 0 (reduced_lat 45) 0 0)) (Fin 0)
   \<and> cos2sigmaM (fin_locals 0 (reduced_lat 45) 0 0) =
       dsub (cossigma (fin_locals 0 (reduced_lat 45) 0 0))
         (ddiv (dmul (dmul (Fin 2) (sinU1 (Vincenty_reduced (Fin 0) (Fin 0) (Fin 45) (Fin 0))))
                     (sinU2 (Vincenty_reduced (Fin 0) (Fin 0) (Fin 45) (Fin 0))))
               (cos2alpha (fin_locals 0 (reduced_lat 45) 0 0)))"
proof -
  let ?r = "Vincenty_reduced (Fin 0) (Fin 0) (Fin 0) (Fin 90)"
  let ?st = "fin_locals 0 0 (pi / 2) (pi / 2)"
  have r: "?r = fin_reduced 0 0 (pi / 2)"
    by (simp add: reduced_Fin reduced_lat_0)
  have b: "Vincenty_body ?r (Fin (pi / 2)) = Continue ?st"
    by (simp add: r body_Fin equator_quarter)
  have z: "deq (cos2alpha ?st) (Fin 0)"
    by (simp add: equator_quarter)
  let ?r' = "Vincenty_reduced (Fin 0) (Fin 0) (Fin 45) (Fin 0)"
  let ?st' = "fin_locals 0 (reduced_lat 45) 0 0"
  have r': "?r' = fin_reduced 0 (reduced_lat 45) 0"
    by (simp add: reduced_Fin reduced_lat_0)
  have nz: "fin_sinsigma 0 (reduced_lat 45) 0 \<noteq> 0"
    using reduced_lat_45_sin by (simp add: fin_sinsigma_def)
  have b': "Vincenty_body ?r' (Fin 0) = Continue ?st'"
    using nz by (simp add: r' body_Fin)
  have n: "dne (cos2alpha ?st') (Fin 0)"
    by (simp add: meridian_45 dne_def)
  from Vincenty_division_guarded [OF b, of 100 0] z
  have 1: "cos2sigmaM ?st = Fin 0" by simp
  from Vincenty_division_guarded [OF b', of 100 0] n
  have 2: "cos2sigmaM ?st' = dsub (cossigma ?st')
      (ddiv (dmul (dmul (Fin 2) (sinU1 ?r')) (sinU2 ?r')) (cos2alpha ?st'))" by simp
  from b z 1 b' n 2 show ?thesis by blast
qed



text \<open>
  Exchanging the two points (claim C8). In exact real arithmetic each of the three methods
  returns the same value when the two points are exchanged, for all coordinates and every
  unit. In double arithmetic the products of \<^verbatim>\<open>term2\<close> are rounded in another order
  after the exchange; near antipodal points the iteration of \<open>Vincenty\<close> amplifies the
  difference, and nothing is proved here of the exchanged call.
\<close>

theorem distance_symmetric:
  "Haversine (Fin lat2) (Fin lon2) (Fin lat1) (Fin lon1) unit
     = Haversine (Fin lat1) (Fin lon1) (Fin lat2) (Fin lon2) unit
   \<and> SLC (Fin lat2) (Fin lon2) (Fin lat1) (Fin lon1) unit
     = SLC (Fin lat1) (Fin lon1) (Fin lat2) (Fin lon2) unit
   \<and> Vincenty (Fin lat2) (Fin lon2) (Fin lat1) (Fin lon1) unit
     = Vincenty (Fin lat1) (Fin lon1) (Fin lat2) (Fin lon2) unit"
  by (simp only: Haversine_sym SLC_sym Vincenty_sym)

text \<open>
  Claim C9. When both points are the same point: in double arithmetic \<open>Haversine\<close> and
  \<open>Vincenty\<close> return exactly 0, for every latitude in the range of \<^verbatim>\<open>double\<close>, every
  longitude and every unit; in exact real arithmetic each of the three methods returns
  exactly 0. In double arithmetic \<open>SLC\<close> does not return 0 at every point
  (\<open>SLC_same_point_nonzero\<close>).
\<close>

theorem same_point_zero:
  "(\<bar>lat\<bar> \<le> 2 ^ 1024 \<longrightarrow>
      Haversine_r (Fin lat) (Fin lon) (Fin lat) (Fin lon) unit = Fin 0
      \<and> Vincenty_r (Fin lat) (Fin lon) (Fin lat) (Fin lon) unit = Fin 0)
   \<and> Haversine (Fin lat) (Fin lon) (Fin lat) (Fin lon) unit = Fin 0
   \<and> SLC (Fin lat) (Fin lon) (Fin lat) (Fin lon) unit = Fin 0
   \<and> Vincenty (Fin lat) (Fin lon) (Fin lat) (Fin lon) unit = Fin 0"
proof -
  have "sin (lat * (pi / 180)) * sin (lat * (pi / 180))
      + cos (lat * (pi / 180)) * cos (lat * (pi / 180)) = 1"
    using sin_cos_squared_add [of "lat * (pi / 180)"] by (simp only: power2_eq_square)
  then have "Haversine (Fin lat) (Fin lon) (Fin lat) (Fin lon) unit = Fin 0
      \<and> SLC (Fin lat) (Fin lon) (Fin lat) (Fin lon) unit = Fin 0
      \<and> Vincenty (Fin lat) (Fin lon) (Fin lat) (Fin lon) unit = Fin 0"
    by (simp add: Haversine_Fin SLC_Fin Vincenty_same_point Let_def)
  then show ?thesis
    using Haversine_r_same [of lat lon unit] Vincenty_r_same [of lat lon unit] by blast
qed

theorem same_point_zero_witness:
  "\<bar>12 :: real\<bar> \<le> 2 ^ 1024
   \<and> Haversine_r (Fin 12) (Fin 0) (Fin 12) (Fin 0) SI = Fin 0
   \<and> Vincenty_r (Fin 12) (Fin 0) (Fin 12) (Fin 0) SI = Fin 0"
  using same_point_zero [of 12 0 SI] by simp

text \<open>
  At the latitude \<open>11 / 2 ^ 24\<close> degrees the cosine of the latitude in radians rounds to
  \<open>1 - 1 / 2 ^ 53\<close>, its square to \<open>1 - 1 / 2 ^ 52\<close>, and the sum of that and of the
  square of the sine to \<open>1 - 1 / 2 ^ 53\<close>, not to 1. \<open>SLC\<close> returns the arc cosine of that
  times the mean radius: a number greater than zero, for two coincident points.
\<close>

theorem SLC_same_point_nonzero:
  "\<exists>h. SLC_r (Fin (11 / 2 ^ 24)) (Fin 0) (Fin (11 / 2 ^ 24)) (Fin 0) SI = Fin h \<and> 0 < h"
proof -
  have "fin_in (1 / 2 ^ 30) (2 ^ 20)
      (SLC_r (Fin (11 / 2 ^ 24)) (Fin 0) (Fin (11 / 2 ^ 24)) (Fin 0) SI)"
    by (rule SLC_r_same_nonzero)
  then obtain h where h: "SLC_r (Fin (11 / 2 ^ 24)) (Fin 0) (Fin (11 / 2 ^ 24)) (Fin 0) SI = Fin h"
    "1 / 2 ^ 30 \<le> h" by (rule fin_inE)
  have "(0::real) < 1 / 2 ^ 30" by simp
  with h(2) have "0 < h" by linarith
  with h(1) show ?thesis by blast
qed

text \<open>
  Claim C10. Each of the three methods reads the two longitudes only in their difference.
  So adding the same number \<open>d\<close> to both longitudes changes no result when the two sums
  are formed exactly: in double arithmetic when the longitudes passed are the numbers
  \<open>lon1 + d\<close> and \<open>lon2 + d\<close> (the method then rounds the same difference in both
  calls), and in exact real arithmetic whatever the latitudes and longitudes are (numbers
  or not). When the two sums are themselves rounded, the result can change
  (\<open>longitude_shift_rounded\<close>).
\<close>

theorem longitude_shift:
  "Haversine_r lat1 (Fin (lon1 + d)) lat2 (Fin (lon2 + d)) unit
     = Haversine_r lat1 (Fin lon1) lat2 (Fin lon2) unit
   \<and> SLC_r lat1 (Fin (lon1 + d)) lat2 (Fin (lon2 + d)) unit
     = SLC_r lat1 (Fin lon1) lat2 (Fin lon2) unit
   \<and> Vincenty_r lat1 (Fin (lon1 + d)) lat2 (Fin (lon2 + d)) unit
     = Vincenty_r lat1 (Fin lon1) lat2 (Fin lon2) unit
   \<and> Haversine lat1' (dadd lon1' (Fin d)) lat2' (dadd lon2' (Fin d)) unit
     = Haversine lat1' lon1' lat2' lon2' unit
   \<and> SLC lat1' (dadd lon1' (Fin d)) lat2' (dadd lon2' (Fin d)) unit
     = SLC lat1' lon1' lat2' lon2' unit
   \<and> Vincenty lat1' (dadd lon1' (Fin d)) lat2' (dadd lon2' (Fin d)) unit
     = Vincenty lat1' lon1' lat2' lon2' unit"
  by (simp only: Haversine_r_shift SLC_r_shift Vincenty_r_shift
      Haversine_shift SLC_shift Vincenty_shift)

text \<open>
  The longitudes 0 and 1 shifted by \<open>2 ^ 53\<close> in double arithmetic: \<open>1 + 2 ^ 53\<close> rounds
  to \<open>2 ^ 53\<close>, so the shifted longitudes are equal and \<open>Haversine\<close> returns 0 for them.
  Without the shift it returns a number greater than zero.
\<close>

theorem longitude_shift_rounded:
  "Haversine_r (Fin 0) (radd (Fin 0) (Fin (2 ^ 53))) (Fin 0) (radd (Fin 1) (Fin (2 ^ 53))) SI
     = Fin 0
   \<and> (\<exists>h. Haversine_r (Fin 0) (Fin 0) (Fin 0) (Fin 1) SI = Fin h \<and> 0 < h)"
proof -
  have "\<bar>0 :: real\<bar> \<le> 2 ^ 1024" by simp
  then have "Haversine_r (Fin 0) (Fin (2 ^ 53)) (Fin 0) (Fin (2 ^ 53)) SI = Fin 0"
    by (rule Haversine_r_same)
  then have s: "Haversine_r (Fin 0) (radd (Fin 0) (Fin (2 ^ 53))) (Fin 0)
      (radd (Fin 1) (Fin (2 ^ 53))) SI = Fin 0"
    by (simp only: radd_2_53)
  have "fin_in (1 / 2 ^ 120) (2 ^ 20) (Haversine_r (Fin 0) (Fin 0) (Fin 0) (Fin 1) SI)"
    by (rule Haversine_r_equator) simp_all
  then obtain h where h: "Haversine_r (Fin 0) (Fin 0) (Fin 0) (Fin 1) SI = Fin h"
    "1 / 2 ^ 120 \<le> h" by (rule fin_inE)
  have "(0::real) < 1 / 2 ^ 120" by simp
  with h(2) have "0 < h" by linarith
  with s h(1) show ?thesis by blast
qed

end
